theory Spec2Isabelle
  imports Complex_Main "HOL-Library.AList" "HOL-Library.Multiset"
begin

section \<open>JavaScript strings\<close>

text \<open>
  A JavaScript string is modelled as a list of 8-bit code units, read as the code points
  U+0000 to U+00FF (Latin-1).  On this range \<open>toLowerCase\<close> maps code units one to one,
  \<open>length\<close> counts code units as JavaScript does, and the regular-expression classes
  \<open>\w\<close> and \<open>\s\<close> are the sets written below.  Numbers are modelled as exact reals:
  the rounding of IEEE doubles is not part of the model.
\<close>

definition code_unit :: "char \<Rightarrow> nat" where
  "code_unit c = of_char c"

definition is_upper_unit :: "char \<Rightarrow> bool" where
  "is_upper_unit c =
     (let n = code_unit c
      in (65 \<le> n \<and> n \<le> 90) \<or> (192 \<le> n \<and> n \<le> 222 \<and> n \<noteq> 215))"

definition is_lower_unit :: "char \<Rightarrow> bool" where
  "is_lower_unit c =
     (let n = code_unit c
      in (97 \<le> n \<and> n \<le> 122) \<or> (224 \<le> n \<and> n \<le> 254 \<and> n \<noteq> 247))"

definition toLowerChar :: "char \<Rightarrow> char" where
  "toLowerChar c = (if is_upper_unit c then char_of (code_unit c + 32) else c)"

definition toUpperChar :: "char \<Rightarrow> char" where
  \<comment> \<open>\<open>Canonicalize\<close> of a non-unicode, ignore-case regular expression: the upper-case
      form when it is a single code unit of the same range, else the character itself.\<close>
  "toUpperChar c = (if is_lower_unit c then char_of (code_unit c - 32) else c)"

definition toLowerCase :: "string \<Rightarrow> string" where
  "toLowerCase s = map toLowerChar s"

definition is_word_char :: "char \<Rightarrow> bool" where
  \<comment> \<open>\<open>\w\<close>: \<open>[A-Za-z0-9_]\<close>\<close>
  "is_word_char c =
     (let n = code_unit c
      in (48 \<le> n \<and> n \<le> 57) \<or> (65 \<le> n \<and> n \<le> 90) \<or> n = 95 \<or> (97 \<le> n \<and> n \<le> 122))"

definition is_space_char :: "char \<Rightarrow> bool" where
  \<comment> \<open>\<open>\s\<close> below U+0100: tab, line feed, vertical tab, form feed, carriage return,
      space, no-break space.  \<open>trim\<close> strips the same set.\<close>
  "is_space_char c = (code_unit c \<in> {9, 10, 11, 12, 13, 32, 160})"

definition is_line_terminator :: "char \<Rightarrow> bool" where
  "is_line_terminator c = (code_unit c \<in> {10, 13})"

fun startsWith :: "string \<Rightarrow> string \<Rightarrow> bool" where
  "startsWith s [] = True"
| "startsWith [] (p # ps) = False"
| "startsWith (x # xs) (p # ps) = (x = p \<and> startsWith xs ps)"

fun str_includes :: "string \<Rightarrow> string \<Rightarrow> bool" where
  "str_includes [] p = (p = [])"
| "str_includes (x # xs) p = (startsWith (x # xs) p \<or> str_includes xs p)"

definition endsWith :: "string \<Rightarrow> string \<Rightarrow> bool" where
  "endsWith s p = startsWith (rev s) (rev p)"

definition trim :: "string \<Rightarrow> string" where
  "trim s = rev (dropWhile is_space_char (rev (dropWhile is_space_char s)))"

fun split_acc :: "char \<Rightarrow> string \<Rightarrow> string \<Rightarrow> string list" where
  "split_acc sep acc [] = [rev acc]"
| "split_acc sep acc (x # xs) =
     (if x = sep then rev acc # split_acc sep [] xs else split_acc sep (x # acc) xs)"

definition split_char :: "char \<Rightarrow> string \<Rightarrow> string list" where
  \<comment> \<open>\<open>s.split(sep)\<close> for a one-character separator; the empty string gives one empty piece\<close>
  "split_char sep s = split_acc sep [] s"

fun replace_first :: "string \<Rightarrow> string \<Rightarrow> string \<Rightarrow> string" where
  \<comment> \<open>\<open>s.replace(pat, rep)\<close> with a string pattern: only the first occurrence\<close>
  "replace_first pat rep [] = (if pat = [] then rep else [])"
| "replace_first pat rep (x # xs) =
     (if startsWith (x # xs) pat then rep @ drop (length pat) (x # xs)
      else x # replace_first pat rep xs)"

fun join_with :: "string \<Rightarrow> string list \<Rightarrow> string" where
  "join_with sep [] = []"
| "join_with sep [x] = x"
| "join_with sep (x # y # ys) = x @ sep @ join_with sep (y # ys)"

section \<open>Regular expressions\<close>

text \<open>
  The fragment of JavaScript regular expressions that the engine uses, with the
  backtracking semantics of the language: \<open>ms ci r s\<close> lists, in the order in which the
  matcher tries them, the rests of \<open>s\<close> after each way of matching \<open>r\<close> at its start
  (\<open>ci\<close> is the ignore-case flag).  The first element is the match JavaScript reports.
  A greedy repetition tries one more iteration first and rejects an iteration that
  consumes nothing.
\<close>

datatype atom = AChr char | AWord | ASpace

datatype regex =
    Sym atom
  | NSet "atom list"
  | Dot
  | Emp
  | Seq regex regex
  | Alt regex regex
  | Star regex
  | Opt regex

definition Plus_re :: "regex \<Rightarrow> regex" where
  "Plus_re r = Seq r (Star r)"

fun atom_ok :: "bool \<Rightarrow> atom \<Rightarrow> char \<Rightarrow> bool" where
  "atom_ok ci (AChr c) x = (if ci then toUpperChar c = toUpperChar x else c = x)"
| "atom_ok ci AWord x = is_word_char x"
| "atom_ok ci ASpace x = is_space_char x"

fun ms :: "bool \<Rightarrow> regex \<Rightarrow> string \<Rightarrow> string list" where
  "ms ci (Sym a) s = (case s of [] \<Rightarrow> [] | x # xs \<Rightarrow> if atom_ok ci a x then [xs] else [])"
| "ms ci (NSet as) s =
     (case s of [] \<Rightarrow> [] | x # xs \<Rightarrow> if list_ex (\<lambda>a. atom_ok ci a x) as then [] else [xs])"
| "ms ci Dot s = (case s of [] \<Rightarrow> [] | x # xs \<Rightarrow> if is_line_terminator x then [] else [xs])"
| "ms ci Emp s = [s]"
| "ms ci (Seq a b) s = concat (map (ms ci b) (ms ci a s))"
| "ms ci (Alt a b) s = ms ci a s @ ms ci b s"
| "ms ci (Star a) s =
     concat (map (ms ci (Star a)) (filter (\<lambda>t. length t < length s) (ms ci a s))) @ [s]"
| "ms ci (Opt a) s = filter (\<lambda>t. length t < length s) (ms ci a s) @ [s]"

fun re_test :: "bool \<Rightarrow> regex \<Rightarrow> string \<Rightarrow> bool" where
  \<comment> \<open>\<open>r.test(s)\<close> without the global flag: a match starting at some position\<close>
  "re_test ci r [] = (ms ci r [] \<noteq> [])"
| "re_test ci r (x # xs) = (ms ci r (x # xs) \<noteq> [] \<or> re_test ci r xs)"

function match_all :: "bool \<Rightarrow> regex \<Rightarrow> string \<Rightarrow> string list" where
  \<comment> \<open>\<open>s.match(r)\<close> with the global flag: the matched substrings, leftmost first, each
      search resuming where the last match ended (one further after an empty match)\<close>
  "match_all ci r s =
     (case ms ci r s of
        [] \<Rightarrow> (case s of [] \<Rightarrow> [] | x # xs \<Rightarrow> match_all ci r xs)
      | t # _ \<Rightarrow>
          if length t < length s then take (length s - length t) s # match_all ci r t
          else [] # (case s of [] \<Rightarrow> [] | x # xs \<Rightarrow> match_all ci r xs))"
  by pat_completeness auto
termination
  by (relation "measure (\<lambda>(ci, r, s). length s)") auto

function replace_all :: "bool \<Rightarrow> regex \<Rightarrow> string \<Rightarrow> string \<Rightarrow> string" where
  \<comment> \<open>\<open>s.replace(r, rep)\<close> with the global flag and a replacement without \<open>$\<close>\<close>
  "replace_all ci r rep s =
     (case ms ci r s of
        [] \<Rightarrow> (case s of [] \<Rightarrow> [] | x # xs \<Rightarrow> x # replace_all ci r rep xs)
      | t # _ \<Rightarrow>
          if length t < length s then rep @ replace_all ci r rep t
          else rep @ (case s of [] \<Rightarrow> [] | x # xs \<Rightarrow> x # replace_all ci r rep xs))"
  by pat_completeness auto
termination
  by (relation "measure (\<lambda>(ci, r, rep, s). length s)") auto

function split_go :: "regex \<Rightarrow> string \<Rightarrow> string \<Rightarrow> string list" where
  \<comment> \<open>the loop of \<open>s.split(r)\<close>: \<open>acc\<close> is the piece read so far, reversed; a match that
      is empty and starts the piece is skipped\<close>
  "split_go r acc s =
     (case s of
        [] \<Rightarrow> [rev acc]
      | x # xs \<Rightarrow>
          (case ms False r s of
             [] \<Rightarrow> split_go r (x # acc) xs
           | t # _ \<Rightarrow>
               if length t < length s then rev acc # split_go r [] t
               else if acc = [] then split_go r [x] xs
               else rev acc # split_go r [] s))"
  by pat_completeness auto
termination
  by (relation "measures [\<lambda>(r, acc, s). length s, \<lambda>(r, acc, s). length acc]") auto

definition split_re :: "regex \<Rightarrow> string \<Rightarrow> string list" where
  "split_re r s = (if s = [] then (if ms False r [] \<noteq> [] then [] else [[]]) else split_go r [] s)"

declare match_all.simps [simp del] replace_all.simps [simp del] split_go.simps [simp del]

subsection \<open>Compiling a pattern source\<close>

text \<open>
  \<open>new RegExp(source)\<close> parses its argument as a pattern and throws a \<open>SyntaxError\<close> when
  it is not one.  The parser below covers the pattern syntax made of ordinary characters,
  \<open>.\<close>, the escapes \<open>\w\<close> and \<open>\s\<close>, an escaped syntax character or slash, the greedy
  quantifiers \<open>*\<close>, \<open>+\<close>, \<open>?\<close>, alternation and capturing groups.  Any other construct
  (anchors, character classes, braces, lazy quantifiers, other escapes, \<open>(?\<close>) gives
  \<open>NotModelled\<close>: the model says nothing about such a source.
\<close>

datatype error =
    NoFilesFound string "string list option"
  | NoIndexedFiles string
  | SyntaxError
  | TypeError
  | LibraryError
  | NotModelled

definition bsl :: char where
  "bsl = CHR 0x5C"

definition is_syntax_char :: "char \<Rightarrow> bool" where
  "is_syntax_char c = (c = bsl \<or> c \<in> set ''^$.*+?()[]{}|'')"

type_synonym frame = "regex list \<times> regex list \<times> bool"

definition seq_of :: "regex list \<Rightarrow> regex" where
  "seq_of ts = foldr Seq ts Emp"

fun alts_of :: "regex list \<Rightarrow> regex" where
  "alts_of [] = Emp"
| "alts_of [r] = r"
| "alts_of (r # rs) = Alt r (alts_of rs)"

definition close_frame :: "frame \<Rightarrow> regex" where
  \<comment> \<open>a frame holds the finished alternatives and the terms of the current one, both
      latest first, and whether the latest term already carries a quantifier\<close>
  "close_frame f = (case f of (alts, ts, q) \<Rightarrow> alts_of (rev (seq_of (rev ts) # alts)))"

fun parse_re :: "frame list \<Rightarrow> string \<Rightarrow> error + regex" where
  "parse_re st [] = (case st of [f] \<Rightarrow> Inr (close_frame f) | _ \<Rightarrow> Inl SyntaxError)"
| "parse_re st (c # cs) =
     (case st of
        [] \<Rightarrow> Inl SyntaxError
      | (alts, ts, q) # up \<Rightarrow>
          if c = bsl then
            (case cs of
               [] \<Rightarrow> Inl SyntaxError
             | e # cs' \<Rightarrow>
                 if e = CHR ''w'' then parse_re ((alts, Sym AWord # ts, False) # up) cs'
                 else if e = CHR ''s'' then parse_re ((alts, Sym ASpace # ts, False) # up) cs'
                 else if is_syntax_char e \<or> e = CHR ''/''
                   then parse_re ((alts, Sym (AChr e) # ts, False) # up) cs'
                 else Inl NotModelled)
          else if c = CHR ''.'' then parse_re ((alts, Dot # ts, False) # up) cs
          else if c = CHR ''*'' then
            (case ts of
               [] \<Rightarrow> Inl SyntaxError
             | t # ts' \<Rightarrow>
                 if q then Inl SyntaxError else parse_re ((alts, Star t # ts', True) # up) cs)
          else if c = CHR ''+'' then
            (case ts of
               [] \<Rightarrow> Inl SyntaxError
             | t # ts' \<Rightarrow>
                 if q then Inl SyntaxError else parse_re ((alts, Plus_re t # ts', True) # up) cs)
          else if c = CHR ''?'' then
            (case ts of
               [] \<Rightarrow> Inl SyntaxError
             | t # ts' \<Rightarrow>
                 if q then Inl NotModelled else parse_re ((alts, Opt t # ts', True) # up) cs)
          else if c = CHR ''|'' then parse_re ((seq_of (rev ts) # alts, [], False) # up) cs
          else if c = CHR ''('' then
            (if cs \<noteq> [] \<and> hd cs = CHR ''?'' then Inl NotModelled
             else parse_re (([], [], False) # st) cs)
          else if c = CHR '')'' then
            (case up of
               [] \<Rightarrow> Inl SyntaxError
             | (alts', ts', q') # up' \<Rightarrow>
                 parse_re ((alts', close_frame (alts, ts, q) # ts', False) # up') cs)
          else if is_syntax_char c then Inl NotModelled
          else parse_re ((alts, Sym (AChr c) # ts, False) # up) cs)"

definition RegExp_new :: "string \<Rightarrow> error + regex" where
  "RegExp_new source = parse_re [([], [], False)] source"

section \<open>Keyword extraction\<close>

text \<open>
  A JavaScript \<open>Map\<close> from strings is an association list with distinct keys in
  insertion order: \<open>get\<close> is \<open>map_of\<close>, and \<open>set\<close> is \<open>AList.update\<close>, which
  overwrites the value of a present key in place and appends an absent one.
\<close>

type_synonym 'v jsmap = "(string \<times> 'v) list"

definition get_or_0 :: "nat jsmap \<Rightarrow> string \<Rightarrow> nat" where
  \<comment> \<open>\<open>m.get(k) || 0\<close>\<close>
  "get_or_0 m k = (case map_of m k of None \<Rightarrow> 0 | Some v \<Rightarrow> v)"

definition commonKeywords :: "string list" where
  "commonKeywords =
     [''if'', ''else'', ''for'', ''while'', ''do'', ''switch'', ''case'', ''break'', ''continue'',
      ''return'', ''try'', ''catch'', ''finally'', ''throw'', ''new'', ''delete'', ''typeof'',
      ''instanceof'', ''void'', ''this'', ''super'', ''class'', ''interface'', ''extends'',
      ''implements'', ''static'', ''public'', ''private'', ''protected'', ''const'', ''let'',
      ''var'', ''function'', ''async'', ''await'', ''import'', ''export'', ''from'', ''as'',
      ''true'', ''false'', ''null'', ''undefined'', ''NaN'', ''Infinity'']"

definition isCommonKeyword :: "string \<Rightarrow> bool" where
  "isCommonKeyword word = (word \<in> set commonKeywords)"

definition lit :: "string \<Rightarrow> regex" where
  "lit s = seq_of (map (\<lambda>c. Sym (AChr c)) s)"

definition class_re :: regex where
  \<comment> \<open>\<open>/class\s+(\w+)/\<close>\<close>
  "class_re = Seq (lit ''class'') (Seq (Plus_re (Sym ASpace)) (Plus_re (Sym AWord)))"

definition function_re :: regex where
  \<comment> \<open>\<open>/function\s+(\w+)|(\w+)\s*\(/\<close>\<close>
  "function_re =
     Alt (Seq (lit ''function'') (Seq (Plus_re (Sym ASpace)) (Plus_re (Sym AWord))))
         (Seq (Plus_re (Sym AWord)) (Seq (Star (Sym ASpace)) (Sym (AChr CHR ''(''))))"

definition function_strip_re :: regex where
  \<comment> \<open>\<open>/function\s+|\s*\(/\<close>\<close>
  "function_strip_re =
     Alt (Seq (lit ''function'') (Plus_re (Sym ASpace)))
         (Seq (Star (Sym ASpace)) (Sym (AChr CHR ''('')))"

definition normalizedCode :: "string \<Rightarrow> string" where
  "normalizedCode code =
     trim (replace_all False (Plus_re (Sym ASpace)) '' ''
            (replace_all False (NSet [AWord, ASpace]) '' '' (toLowerCase code)))"

definition count_word :: "nat jsmap \<Rightarrow> string \<Rightarrow> nat jsmap" where
  "count_word keywords word =
     (if length word \<le> 2 \<or> isCommonKeyword word then keywords
      else AList.update word (get_or_0 keywords word + 1) keywords)"

definition add_class :: "nat jsmap \<Rightarrow> string \<Rightarrow> nat jsmap" where
  "add_class keywords m =
     (let className = toLowerCase (replace_first ''class '' [] m)
      in AList.update className (get_or_0 keywords className + 10) keywords)"

definition add_function :: "nat jsmap \<Rightarrow> string \<Rightarrow> nat jsmap" where
  "add_function keywords m =
     (let functionName = toLowerCase (replace_all False function_strip_re [] m)
      in if length functionName > 2 \<and> \<not> isCommonKeyword functionName
         then AList.update functionName (get_or_0 keywords functionName + 5) keywords
         else keywords)"

definition extractKeywords :: "string \<Rightarrow> nat jsmap" where
  "extractKeywords code =
     (let words = split_char CHR '' '' (normalizedCode code);
          keywords1 = foldl count_word [] words;
          classMatches = match_all False class_re code;
          keywords2 = foldl add_class keywords1 classMatches;
          functionMatches = match_all False function_re code
      in foldl add_function keywords2 functionMatches)"

section \<open>Paths\<close>

text \<open>
  The functions of Node's \<open>path\<close> module that the engine calls, in their POSIX form
  (\<open>path.sep\<close> is \<open>/\<close>).  \<open>path.resolve\<close> reads the working directory of the process,
  which is absolute.
\<close>

definition isAbsolute :: "string \<Rightarrow> bool" where
  "isAbsolute p = (p \<noteq> [] \<and> hd p = CHR ''/'')"

fun normalizeString :: "bool \<Rightarrow> string list \<Rightarrow> string list \<Rightarrow> string list" where
  \<comment> \<open>resolves \<open>.\<close>, \<open>..\<close> and empty segments; \<open>acc\<close> holds the kept segments, last first\<close>
  "normalizeString allowAboveRoot acc [] = rev acc"
| "normalizeString allowAboveRoot acc (s # ss) =
     (if s = [] \<or> s = ''.'' then normalizeString allowAboveRoot acc ss
      else if s = ''..'' then
        (if acc \<noteq> [] \<and> hd acc \<noteq> ''..'' then normalizeString allowAboveRoot (tl acc) ss
         else if allowAboveRoot then normalizeString allowAboveRoot (''..'' # acc) ss
         else normalizeString allowAboveRoot acc ss)
      else normalizeString allowAboveRoot (s # acc) ss)"

definition path_resolve :: "string \<Rightarrow> string \<Rightarrow> string" where
  \<comment> \<open>\<open>path.resolve(p)\<close> in a process whose working directory is \<open>cwd\<close>\<close>
  "path_resolve cwd p =
     (let resolvedPath =
            (if p = [] then cwd @ ''/''
             else if isAbsolute p then p @ ''/''
             else cwd @ ''/'' @ p @ ''/'')
      in CHR ''/'' # join_with ''/'' (normalizeString False [] (split_char CHR ''/'' resolvedPath)))"

definition path_normalize :: "string \<Rightarrow> string" where
  "path_normalize p =
     (if p = [] then ''.''
      else
        (let trailingSeparator = (last p = CHR ''/'');
             n = join_with ''/'' (normalizeString (\<not> isAbsolute p) [] (split_char CHR ''/'' p))
         in if n = [] then (if isAbsolute p then ''/'' else if trailingSeparator then ''./'' else ''.'')
            else (if isAbsolute p then ''/'' else []) @ n @ (if trailingSeparator then ''/'' else [])))"

definition path_join :: "string \<Rightarrow> string \<Rightarrow> string" where
  "path_join a b =
     (if a = [] \<and> b = [] then ''.''
      else if a = [] then path_normalize b
      else if b = [] then path_normalize a
      else path_normalize (a @ ''/'' @ b))"

definition path_parse_root :: "string \<Rightarrow> string" where
  \<comment> \<open>\<open>path.parse(p).root\<close>\<close>
  "path_parse_root p = (if isAbsolute p then ''/'' else [])"

definition path_dirname :: "string \<Rightarrow> string" where
  \<comment> \<open>scans from the end down to index 1: trailing slashes, then the last segment, then
      the slash before it\<close>
  "path_dirname p =
     (if p = [] then ''.''
      else
        (let hasRoot = (hd p = CHR ''/'');
             r = dropWhile (\<lambda>c. c \<noteq> CHR ''/'') (dropWhile (\<lambda>c. c = CHR ''/'') (rev (tl p)))
         in if r = [] then (if hasRoot then ''/'' else ''.'')
            else if hasRoot \<and> length r = 1 then ''//''
            else hd p # rev (tl r)))"

definition path_basename :: "string \<Rightarrow> string" where
  "path_basename p =
     rev (takeWhile (\<lambda>c. c \<noteq> CHR ''/'') (dropWhile (\<lambda>c. c = CHR ''/'') (rev p)))"

fun strip_common :: "string list \<Rightarrow> string list \<Rightarrow> string list \<times> string list" where
  "strip_common (x # xs) (y # ys) = (if x = y then strip_common xs ys else (x # xs, y # ys))"
| "strip_common xs ys = (xs, ys)"

definition path_relative :: "string \<Rightarrow> string \<Rightarrow> string \<Rightarrow> string" where
  \<comment> \<open>\<open>path.relative(from, to)\<close>: both resolved, the common leading segments dropped,
      one \<open>..\<close> for each segment left of \<open>from\<close>\<close>
  "path_relative cwd from to =
     (let f = normalizeString False [] (split_char CHR ''/'' (tl (path_resolve cwd from)));
          t = normalizeString False [] (split_char CHR ''/'' (tl (path_resolve cwd to)))
      in case strip_common f t of (f', t') \<Rightarrow> join_with ''/'' (replicate (length f') ''..'' @ t'))"

section \<open>The file system\<close>

text \<open>
  What the engine reads of its environment: the working directory and the calls it makes
  to Node's \<open>fs\<close>, to \<open>glob\<close>, to the \<open>ignore\<close> package and to \<open>crypto\<close>.  A call
  that throws returns \<open>None\<close>.  An \<open>ignore\<close> instance is the list of rule texts added to
  it, in order.
\<close>

record env =
  cwd :: string
  existsSync :: "string \<Rightarrow> bool"
  readFileSync :: "string \<Rightarrow> string option"
  readdirSync :: "string \<Rightarrow> string list option"
  statSync_isDirectory :: "string \<Rightarrow> bool option"
  glob :: "string \<Rightarrow> string list option"
  ignores :: "string list \<Rightarrow> string \<Rightarrow> bool option"
  md5_hex :: "string \<Rightarrow> string"

definition defaultExtensions :: "string list" where
  "defaultExtensions = [''.ts'', ''.tsx'', ''.js'', ''.jsx'', ''.py'', ''.java'', ''.cpp'', ''.cs'']"

partial_function (option) gitignore_walk :: "env \<Rightarrow> string \<Rightarrow> string list \<Rightarrow> string list option"
  where
  "gitignore_walk e currentDir gitignoreFiles =
     (if currentDir \<noteq> path_parse_root currentDir then
        (let gitignorePath = path_join currentDir ''.gitignore''
         in gitignore_walk e (path_dirname currentDir)
              (if existsSync e gitignorePath then gitignoreFiles @ [gitignorePath]
               else gitignoreFiles))
      else Some gitignoreFiles)"

declare gitignore_walk.simps [code]

definition add_gitignore :: "env \<Rightarrow> string list \<Rightarrow> string \<Rightarrow> string list" where
  "add_gitignore e ig gitignorePath =
     (case readFileSync e gitignorePath of Some content \<Rightarrow> ig @ [content] | None \<Rightarrow> ig)"

definition loadGitignore :: "env \<Rightarrow> string \<Rightarrow> string list option" where
  \<comment> \<open>\<open>None\<close>: the walk up to the root does not end\<close>
  "loadGitignore e directory =
     (case gitignore_walk e directory [] of
        None \<Rightarrow> None
      | Some gitignoreFiles \<Rightarrow>
          Some (foldl (add_gitignore e) [] (rev gitignoreFiles) @ [''node_modules/**'']))"

fun filter_ignored :: "env \<Rightarrow> string list \<Rightarrow> string \<Rightarrow> string list \<Rightarrow> error + string list" where
  "filter_ignored e ig absoluteDirectory [] = Inr []"
| "filter_ignored e ig absoluteDirectory (f # fs) =
     (case ignores e ig (path_relative (cwd e) absoluteDirectory f) of
        None \<Rightarrow> Inl LibraryError
      | Some b \<Rightarrow>
          (case filter_ignored e ig absoluteDirectory fs of
             Inl err \<Rightarrow> Inl err
           | Inr rest \<Rightarrow> Inr (if b then rest else f # rest)))"

fun collect_files ::
  "env \<Rightarrow> string list \<Rightarrow> string \<Rightarrow> string \<Rightarrow> string list \<Rightarrow> string list \<Rightarrow> error + string list" where
  "collect_files e ig absoluteDirectory directory files [] = Inr files"
| "collect_files e ig absoluteDirectory directory files (ext # exts) =
     (case glob e (directory @ ''/**/*'' @ ext) of
        None \<Rightarrow> Inl LibraryError
      | Some matches \<Rightarrow>
          (case filter_ignored e ig absoluteDirectory matches of
             Inl err \<Rightarrow> Inl err
           | Inr filteredMatches \<Rightarrow>
               collect_files e ig absoluteDirectory directory (files @ filteredMatches) exts))"

definition isTestFile :: "string \<Rightarrow> bool" where
  "isTestFile file =
     (let filename = toLowerCase (path_basename file)
      in str_includes filename ''.spec.'' \<or> str_includes filename ''.test.''
         \<or> str_includes file ''__tests__'')"

definition getSourceFiles :: "env \<Rightarrow> string \<Rightarrow> string list option \<Rightarrow> (error + string list) option"
  where
  "getSourceFiles e directory extensions =
     (case loadGitignore e directory of
        None \<Rightarrow> None
      | Some ig \<Rightarrow>
          Some (case collect_files e ig (path_resolve (cwd e) directory) directory []
                       (case extensions of None \<Rightarrow> defaultExtensions | Some exts \<Rightarrow> exts) of
                  Inl err \<Rightarrow> Inl err
                | Inr files \<Rightarrow> Inr (filter (\<lambda>file. \<not> isTestFile file) files)))"

section \<open>The search engine\<close>

record CodeMetadata =
  m_file :: string
  m_code :: string
  m_keywords :: "nat jsmap"
  m_checksum :: string

record SearchResult =
  r_file :: string
  r_code :: string
  similarityScore :: real
  rank :: nat

record engine =
  directoryIndices :: "string \<rightharpoonup> CodeMetadata list"
  indexedExtensions :: "string \<rightharpoonup> string list"

definition new_engine :: engine where
  "new_engine = \<lparr>directoryIndices = Map.empty, indexedExtensions = Map.empty\<rparr>"

definition calculateChecksum :: "env \<Rightarrow> string \<Rightarrow> string" where
  "calculateChecksum e content = md5_hex e content"

definition getNormalizedDirectory :: "env \<Rightarrow> string \<Rightarrow> string" where
  "getNormalizedDirectory e directory =
     (let resolvedDir = path_resolve (cwd e) directory
      in if endsWith resolvedDir ''/'' then resolvedDir else resolvedDir @ ''/'')"

subsection \<open>createIndex\<close>

definition subdirs_of :: "env \<Rightarrow> string \<Rightarrow> string list option" where
  \<comment> \<open>the sub-directories of \<open>directory\<close>; \<open>None\<close> when \<open>readdirSync\<close> throws\<close>
  "subdirs_of e directory =
     (case readdirSync e directory of
        None \<Rightarrow> None
      | Some items \<Rightarrow>
          Some (map (path_join directory)
                 (filter (\<lambda>item. statSync_isDirectory e (path_join directory item) = Some True)
                    items)))"

fun subdir_files ::
  "env \<Rightarrow> string list option \<Rightarrow> string list \<Rightarrow> string list \<Rightarrow> string list option" where
  "subdir_files e extensions allFiles [] = Some allFiles"
| "subdir_files e extensions allFiles (subdir # subdirs) =
     (case getSourceFiles e subdir extensions of
        None \<Rightarrow> None
      | Some (Inl err) \<Rightarrow> subdir_files e extensions allFiles subdirs
      | Some (Inr subFiles) \<Rightarrow> subdir_files e extensions (allFiles @ subFiles) subdirs)"

definition find_files :: "env \<Rightarrow> string \<Rightarrow> string list option \<Rightarrow> (error + string list) option"
  where
  \<comment> \<open>the files to index: those found in \<open>directory\<close>, else those found in its
      sub-directories, else the error\<close>
  "find_files e directory extensions =
     (case getSourceFiles e directory extensions of
        None \<Rightarrow> None
      | Some (Inl err) \<Rightarrow> Some (Inl err)
      | Some (Inr files) \<Rightarrow>
          if files = [] then
            (case subdirs_of e directory of
               None \<Rightarrow> Some (Inl (NoFilesFound directory extensions))
             | Some subdirs \<Rightarrow>
                 (case subdir_files e extensions [] subdirs of
                    None \<Rightarrow> None
                  | Some allFiles \<Rightarrow>
                      if allFiles = [] then Some (Inl (NoFilesFound directory extensions))
                      else Some (Inr (files @ allFiles))))
          else Some (Inr files))"

definition index_file :: "env \<Rightarrow> CodeMetadata list \<Rightarrow> string \<Rightarrow> CodeMetadata list" where
  "index_file e metadata f =
     (case readFileSync e f of
        None \<Rightarrow> metadata
      | Some content \<Rightarrow>
          metadata @ [\<lparr>m_file = f, m_code = content, m_keywords = extractKeywords content,
                       m_checksum = calculateChecksum e content\<rparr>])"

definition createIndex ::
  "env \<Rightarrow> engine \<Rightarrow> string \<Rightarrow> string list option \<Rightarrow> ((error + unit) \<times> engine) option" where
  \<comment> \<open>\<open>None\<close>: the call does not return; an error leaves the engine as it was\<close>
  "createIndex e st directory extensions =
     (let normalizedDir = getNormalizedDirectory e directory
      in case find_files e directory extensions of
           None \<Rightarrow> None
         | Some (Inl err) \<Rightarrow> Some (Inl err, st)
         | Some (Inr files) \<Rightarrow>
             Some (Inr (),
               st\<lparr>indexedExtensions := (indexedExtensions st)
                      (normalizedDir \<mapsto>
                         (case extensions of None \<Rightarrow> defaultExtensions | Some exts \<Rightarrow> exts)),
                   directoryIndices := (directoryIndices st)
                      (normalizedDir \<mapsto> foldl (index_file e) [] files)\<rparr>))"

definition getMetadataForDirectory :: "env \<Rightarrow> engine \<Rightarrow> string \<Rightarrow> CodeMetadata list" where
  "getMetadataForDirectory e st directory =
     (case directoryIndices st (getNormalizedDirectory e directory) of
        None \<Rightarrow> []
      | Some metadata \<Rightarrow> metadata)"

subsection \<open>keywordSearch\<close>

definition queryKeywords_of :: "string \<Rightarrow> string list" where
  "queryKeywords_of query =
     filter (\<lambda>k. length k > 2) (split_re (Plus_re (Sym ASpace)) (toLowerCase query))"

definition hasKeywordIndices :: "CodeMetadata list \<Rightarrow> bool" where
  "hasKeywordIndices metadata = list_ex (\<lambda>item. length (m_keywords item) > 0) metadata"

definition partial_match :: "string \<Rightarrow> real \<Rightarrow> string \<times> nat \<Rightarrow> real" where
  "partial_match keyword score entry =
     (case entry of (indexedKeyword, indexedScore) \<Rightarrow>
        if str_includes indexedKeyword keyword \<and> indexedKeyword \<noteq> keyword
        then score + real indexedScore * 0.005 else score)"

definition prebuilt_keyword :: "nat jsmap \<Rightarrow> real \<Rightarrow> string \<Rightarrow> real" where
  \<comment> \<open>one round of the loop over the query keywords, on a pre-built keyword index\<close>
  "prebuilt_keyword keywordsMap score keyword =
     (let keywordScore = get_or_0 keywordsMap keyword
      in foldl (partial_match keyword) (score + real keywordScore * 0.01) keywordsMap)"

definition prebuilt_item :: "string list \<Rightarrow> (string \<times> real) list \<Rightarrow> CodeMetadata \<Rightarrow> (string \<times> real) list"
  where
  "prebuilt_item queryKeywords scores item =
     (let score = foldl (prebuilt_keyword (m_keywords item)) 0 queryKeywords
      in if score > 0 then AList.update (m_file item) score scores else scores)"

definition class_src :: "string \<Rightarrow> string" where
  \<comment> \<open>\<open>class\s+\w*${keyword}\w*\<close>\<close>
  "class_src keyword = ''class'' @ [bsl] @ ''s+'' @ [bsl] @ ''w*'' @ keyword @ [bsl] @ ''w*''"

definition function_src :: "string \<Rightarrow> string" where
  \<comment> \<open>\<open>function\s+\w*${keyword}\w*|\w*${keyword}\w*\s*\(\<close>\<close>
  "function_src keyword =
     ''function'' @ [bsl] @ ''s+'' @ [bsl] @ ''w*'' @ keyword @ [bsl] @ ''w*|''
       @ [bsl] @ ''w*'' @ keyword @ [bsl] @ ''w*'' @ [bsl] @ ''s*'' @ [bsl] @ ''(''"

definition comment_src :: "string \<Rightarrow> string" where
  \<comment> \<open>\<open>\/\/.*${keyword}|\*.*${keyword}\<close>\<close>
  "comment_src keyword =
     [bsl] @ ''/'' @ [bsl] @ ''/.*'' @ keyword @ ''|'' @ [bsl] @ ''*.*'' @ keyword"

definition fallback_keyword :: "string \<Rightarrow> real \<Rightarrow> string \<Rightarrow> error + real" where
  \<comment> \<open>one round of the loop over the query keywords, on the lower-cased text of a file\<close>
  "fallback_keyword lcode score keyword =
     (case RegExp_new keyword of
        Inl err \<Rightarrow> Inl err
      | Inr regex \<Rightarrow>
          (let matches = match_all False regex lcode
           in if matches = [] then Inr score
              else
                (case RegExp_new (class_src keyword) of
                   Inl err \<Rightarrow> Inl err
                 | Inr class_regex \<Rightarrow>
                     (case RegExp_new (function_src keyword) of
                        Inl err \<Rightarrow> Inl err
                      | Inr function_regex \<Rightarrow>
                          (case RegExp_new (comment_src keyword) of
                             Inl err \<Rightarrow> Inl err
                           | Inr comment_regex \<Rightarrow>
                               Inr (score + real (length matches) * 0.01
                                    + (if re_test True class_regex lcode then 0.3 else 0)
                                    + (if re_test True function_regex lcode then 0.2 else 0)
                                    + (if re_test True comment_regex lcode then 0.1 else 0)))))))"

fun fallback_score :: "string \<Rightarrow> real \<Rightarrow> string list \<Rightarrow> error + real" where
  "fallback_score lcode score [] = Inr score"
| "fallback_score lcode score (keyword # rest) =
     (case fallback_keyword lcode score keyword of
        Inl err \<Rightarrow> Inl err
      | Inr score' \<Rightarrow> fallback_score lcode score' rest)"

fun fallback_items ::
  "string list \<Rightarrow> (string \<times> real) list \<Rightarrow> CodeMetadata list \<Rightarrow> error + (string \<times> real) list" where
  "fallback_items queryKeywords scores [] = Inr scores"
| "fallback_items queryKeywords scores (item # rest) =
     (case fallback_score (toLowerCase (m_code item)) 0 queryKeywords of
        Inl err \<Rightarrow> Inl err
      | Inr score \<Rightarrow>
          fallback_items queryKeywords
            (if score > 0 then AList.update (m_file item) score scores else scores) rest)"

definition keywordSearch :: "env \<Rightarrow> engine \<Rightarrow> string \<Rightarrow> string \<Rightarrow> error + (string \<times> real) list"
  where
  "keywordSearch e st query directory =
     (let queryKeywords = queryKeywords_of query
      in if queryKeywords = [] then Inr []
         else
           (let metadata = getMetadataForDirectory e st directory
            in if hasKeywordIndices metadata
               then Inr (foldl (prebuilt_item queryKeywords) [] metadata)
               else fallback_items queryKeywords [] metadata))"

subsection \<open>search\<close>

fun insert_by :: "('a \<Rightarrow> 'a \<Rightarrow> real) \<Rightarrow> 'a \<Rightarrow> 'a list \<Rightarrow> 'a list" where
  "insert_by cmp x [] = [x]"
| "insert_by cmp x (y # ys) = (if cmp x y \<le> 0 then x # y # ys else y # insert_by cmp x ys)"

definition sort_by :: "('a \<Rightarrow> 'a \<Rightarrow> real) \<Rightarrow> 'a list \<Rightarrow> 'a list" where
  \<comment> \<open>\<open>Array.prototype.sort\<close> with a comparison function: a stable sort\<close>
  "sort_by cmp xs = foldr (insert_by cmp) xs []"

fun scored_results :: "CodeMetadata list \<Rightarrow> (string \<times> real) list \<Rightarrow> error + SearchResult list"
  where
  \<comment> \<open>the \<open>rank\<close> field is filled in after sorting; reading \<open>code\<close> of a file that
      \<open>find\<close> does not return throws\<close>
  "scored_results metadata [] = Inr []"
| "scored_results metadata ((f, score) # rest) =
     (case find (\<lambda>m. m_file m = f) metadata of
        None \<Rightarrow> Inl TypeError
      | Some item \<Rightarrow>
          (case scored_results metadata rest of
             Inl err \<Rightarrow> Inl err
           | Inr rs \<Rightarrow>
               Inr (\<lparr>r_file = f, r_code = m_code item, similarityScore = score, rank = 0\<rparr> # rs)))"

definition by_score :: "SearchResult \<Rightarrow> SearchResult \<Rightarrow> real" where
  "by_score a b = similarityScore b - similarityScore a"

definition with_ranks :: "SearchResult list \<Rightarrow> SearchResult list" where
  "with_ranks rs = map (\<lambda>(index, result). result\<lparr>rank := index + 1\<rparr>) (enumerate 0 rs)"

definition ranked_results :: "env \<Rightarrow> engine \<Rightarrow> string \<Rightarrow> string \<Rightarrow> error + SearchResult list"
  where
  \<comment> \<open>what \<open>search\<close> does once the directory's index is in place\<close>
  "ranked_results e st query directory =
     (let metadata = getMetadataForDirectory e st directory
      in if length metadata = 0 then Inl (NoIndexedFiles directory)
         else
           (case keywordSearch e st query directory of
              Inl err \<Rightarrow> Inl err
            | Inr keywordScores \<Rightarrow>
                (case scored_results metadata keywordScores of
                   Inl err \<Rightarrow> Inl err
                 | Inr scoredResults \<Rightarrow> Inr (with_ranks (sort_by by_score scoredResults)))))"

definition search ::
  "env \<Rightarrow> engine \<Rightarrow> string \<Rightarrow> string \<Rightarrow> ((error + SearchResult list) \<times> engine) option" where
  \<comment> \<open>\<open>None\<close>: the call does not return\<close>
  "search e st query directory =
     (let normalizedDir = getNormalizedDirectory e directory
      in case (if directoryIndices st normalizedDir = None
               then createIndex e st directory
                      (Some (case indexedExtensions st normalizedDir of
                               None \<Rightarrow> defaultExtensions | Some exts \<Rightarrow> exts))
               else Some (Inr (), st)) of
           None \<Rightarrow> None
         | Some (Inl err, st') \<Rightarrow> Some (Inl err, st')
         | Some (Inr u, st') \<Rightarrow> Some (ranked_results e st' query directory, st'))"

definition getRelevantFiles ::
  "env \<Rightarrow> engine \<Rightarrow> string \<Rightarrow> string \<Rightarrow> ((error + string list) \<times> engine) option" where
  "getRelevantFiles e st query directory =
     (case search e st query directory of
        None \<Rightarrow> None
      | Some (Inl err, st') \<Rightarrow> Some (Inl err, st')
      | Some (Inr results, st') \<Rightarrow> Some (Inr (map r_file results), st'))"

section \<open>Reference definitions and example states\<close>

definition termWeight :: "nat jsmap \<Rightarrow> string \<Rightarrow> nat" where
  "termWeight tm t = (case map_of tm t of Some w \<Rightarrow> w | None \<Rightarrow> 0)"

definition proper_substring :: "string \<Rightarrow> string \<Rightarrow> bool" where
  "proper_substring tok t = (str_includes t tok \<and> t \<noteq> tok)"

definition indexed_terms :: "nat jsmap \<Rightarrow> string list" where
  "indexed_terms tm = remdups (map fst tm)"

definition prebuilt_spec :: "nat jsmap \<Rightarrow> string list \<Rightarrow> real" where
  "prebuilt_spec tm tokens =
     (\<Sum>tok\<leftarrow>tokens. real (termWeight tm tok) * 0.01
        + (\<Sum>t\<leftarrow>filter (proper_substring tok) (indexed_terms tm). real (termWeight tm t) * 0.005))"

definition bare_env :: env where
  "bare_env =
     \<lparr>cwd = ''/proj'', existsSync = (\<lambda>p. False), readFileSync = (\<lambda>p. None),
      readdirSync = (\<lambda>p. None), statSync_isDirectory = (\<lambda>p. None),
      glob = (\<lambda>p. Some []), ignores = (\<lambda>ig p. Some False), md5_hex = (\<lambda>s. [])\<rparr>"

definition tie_engine :: engine where
  "tie_engine =
     \<lparr>directoryIndices =
        [''/proj/src/'' \<mapsto>
           [\<lparr>m_file = ''/proj/src/a.ts'', m_code = ''emailnotifier'',
             m_keywords = [(''emailnotifier'', 1)], m_checksum = []\<rparr>,
            \<lparr>m_file = ''/proj/src/b.ts'', m_code = ''email email email'',
             m_keywords = [(''email'', 3)], m_checksum = []\<rparr>,
            \<lparr>m_file = ''/proj/src/c.ts'', m_code = ''emailnotifier'',
             m_keywords = [(''emailnotifier'', 1)], m_checksum = []\<rparr>]],
      indexedExtensions = [''/proj/src/'' \<mapsto> defaultExtensions]\<rparr>"

definition descending :: "SearchResult list \<Rightarrow> bool" where
  "descending rs = sorted_wrt (\<lambda>a b. similarityScore b \<le> similarityScore a) rs"

definition strictly_descending :: "SearchResult list \<Rightarrow> bool" where
  "strictly_descending rs = sorted_wrt (\<lambda>a b. similarityScore b < similarityScore a) rs"

definition tie_results :: "SearchResult list" where
  "tie_results =
     [\<lparr>r_file = ''/proj/src/b.ts'', r_code = ''email email email'', similarityScore = 0.03, rank = 1\<rparr>,
      \<lparr>r_file = ''/proj/src/a.ts'', r_code = ''emailnotifier'', similarityScore = 0.005, rank = 2\<rparr>,
      \<lparr>r_file = ''/proj/src/c.ts'', r_code = ''emailnotifier'', similarityScore = 0.005, rank = 3\<rparr>]"

fun star_list :: "(char \<Rightarrow> bool) \<Rightarrow> string \<Rightarrow> string list" where
  "star_list P [] = [[]]"
| "star_list P (x # xs) = (if P x then star_list P xs @ [x # xs] else [x # xs])"

function tokens_ws :: "string \<Rightarrow> string list" where
  "tokens_ws s =
     (case dropWhile is_space_char s of
        [] \<Rightarrow> []
      | x # xs \<Rightarrow>
          (x # takeWhile (\<lambda>c. \<not> is_space_char c) xs)
            # tokens_ws (dropWhile (\<lambda>c. \<not> is_space_char c) xs))"
  by pat_completeness auto
termination
proof (relation "measure length")
  show "wf (measure length)" by simp
next
  fix s :: string and x xs
  assume "dropWhile is_space_char s = x # xs"
  then have "length xs < length s"
    using length_dropWhile_le[of is_space_char s] by simp
  then show "(dropWhile (\<lambda>c. \<not> is_space_char c) xs, s) \<in> measure length"
    using length_dropWhile_le[of "\<lambda>c. \<not> is_space_char c" xs] by simp
qed

declare tokens_ws.simps [simp del]

inductive reachable :: "engine \<Rightarrow> bool" where
  \<comment> \<open>the states of an engine: constructed empty, then changed by its three operations,
      each called in any environment with any arguments\<close>
  init: "reachable new_engine"
| create: "reachable st \<Longrightarrow> createIndex e st directory extensions = Some (r, st') \<Longrightarrow> reachable st'"
| search: "reachable st \<Longrightarrow> search e st query directory = Some (rs, st') \<Longrightarrow> reachable st'"
| files: "reachable st \<Longrightarrow> getRelevantFiles e st query directory = Some (fs, st') \<Longrightarrow> reachable st'"

definition is_test_path :: "string \<Rightarrow> bool" where
  \<comment> \<open>a test file: the basename contains \<open>.spec.\<close> or \<open>.test.\<close>, or a segment of the path is
      \<open>__tests__\<close>\<close>
  "is_test_path f =
     (str_includes (path_basename f) ''.spec.'' \<or> str_includes (path_basename f) ''.test.''
      \<or> ''__tests__'' \<in> set (split_char CHR ''/'' f))"

definition demo_env :: env where
  \<comment> \<open>a project whose \<open>.gitignore\<close> names \<open>src\<close>: seen from the project, the files of
      \<open>src\<close> are ignored; seen from \<open>src\<close> itself, they are not\<close>
  "demo_env =
     \<lparr>cwd = ''/proj'',
      existsSync = (\<lambda>p. p = ''/proj/.gitignore''),
      readFileSync =
        (\<lambda>p. if p = ''/proj/src/A.ts'' then Some ''function add(a,b)''
             else if p = ''/proj/src/B.ts'' then Some ''nothing here''
             else if p = ''/proj/src/add.test.ts'' then Some ''function add(a,b)''
             else if p = ''/proj/.gitignore'' then Some ''src''
             else None),
      readdirSync = (\<lambda>p. if p = ''/proj'' then Some [''src'', ''README.md''] else Some []),
      statSync_isDirectory = (\<lambda>p. if p = ''/proj/src'' then Some True else None),
      glob =
        (\<lambda>pat. if pat = ''/proj/src/**/*.ts'' \<or> pat = ''/proj/**/*.ts''
               then Some [''/proj/src/A.ts'', ''/proj/src/B.ts'', ''/proj/src/add.test.ts'',
                          ''/proj/src/gone.ts'']
               else Some []),
      ignores = (\<lambda>ig p. Some (''src'' \<in> set ig \<and> startsWith p ''src/'')),
      md5_hex = (\<lambda>s. [])\<rparr>"

definition demo_state :: engine where
  \<comment> \<open>the engine after \<open>createIndex('/proj/src', ['.ts'])\<close> in the example project\<close>
  "demo_state =
     (case createIndex demo_env new_engine ''/proj/src'' (Some [''.ts'']) of
        Some (r, st) \<Rightarrow> st
      | None \<Rightarrow> new_engine)"

definition demo_results :: "SearchResult list" where
  "demo_results =
     [\<lparr>r_file = ''/proj/src/A.ts'', r_code = ''function add(a,b)'', similarityScore = 0.06,
       rank = 1\<rparr>]"

definition found_in :: "env \<Rightarrow> string list option \<Rightarrow> string \<Rightarrow> string list" where
  \<comment> \<open>the files discovery finds in a directory: none when it fails\<close>
  "found_in e extensions directory =
     (case getSourceFiles e directory extensions of Some (Inr files) \<Rightarrow> files | _ \<Rightarrow> [])"

definition readable :: "env \<Rightarrow> string \<Rightarrow> bool" where
  "readable e f = (readFileSync e f \<noteq> None)"

definition fallback_engine :: engine where
  \<comment> \<open>an index whose only file has no keyword: \<open>keywordSearch\<close> scans the text\<close>
  "fallback_engine =
     \<lparr>directoryIndices =
        [''/proj/src/'' \<mapsto>
           [\<lparr>m_file = ''/proj/src/x.ts'', m_code = ''a-b'',
             m_keywords = extractKeywords ''a-b'', m_checksum = []\<rparr>]],
      indexedExtensions = [''/proj/src/'' \<mapsto> defaultExtensions]\<rparr>"

definition empty_project :: env where
  \<comment> \<open>the example project with no source file anywhere\<close>
  "empty_project = demo_env\<lparr>glob := (\<lambda>pat. Some [])\<rparr>"

definition is_letter_or_digit :: "char \<Rightarrow> bool" where
  "is_letter_or_digit c = (is_word_char c \<and> c \<noteq> CHR ''_'')"

definition blank_unless :: "(char \<Rightarrow> bool) \<Rightarrow> string \<Rightarrow> string" where
  \<comment> \<open>every character that is neither kept by \<open>P\<close> nor whitespace becomes a space\<close>
  "blank_unless P s = map (\<lambda>c. if P c \<or> is_space_char c then c else CHR '' '') s"

function collapse_ws :: "string \<Rightarrow> string" where
  \<comment> \<open>every run of whitespace becomes one space\<close>
  "collapse_ws [] = []"
| "collapse_ws (x # xs) =
     (if is_space_char x then CHR '' '' # collapse_ws (dropWhile is_space_char xs)
      else x # collapse_ws xs)"
  by pat_completeness auto
termination
  by (relation "measure length") (auto intro: le_imp_less_Suc length_dropWhile_le)

definition ref_normalize :: "(char \<Rightarrow> bool) \<Rightarrow> string \<Rightarrow> string" where
  "ref_normalize P text = trim (collapse_ws (blank_unless P (toLowerCase text)))"

definition kept :: "string \<Rightarrow> bool" where
  \<comment> \<open>the length and stoplist filter\<close>
  "kept w = (length w > 2 \<and> \<not> isCommonKeyword w)"

definition ref_tokens :: "(char \<Rightarrow> bool) \<Rightarrow> string \<Rightarrow> string list" where
  "ref_tokens P text = filter kept (split_char CHR '' '' (ref_normalize P text))"

definition class_name :: "string \<Rightarrow> string" where
  \<comment> \<open>the name of a match of \<open>class <Name>\<close>: the word that ends it\<close>
  "class_name m = rev (takeWhile is_word_char (rev m))"

definition function_name :: "string \<Rightarrow> string" where
  \<comment> \<open>the name of a match of \<open>function <name>\<close> (the word that ends it) or of
      \<open><name>(\<close> (the word that starts it)\<close>
  "function_name m =
     (if m \<noteq> [] \<and> last m = CHR ''('' then takeWhile is_word_char m
      else rev (takeWhile is_word_char (rev m)))"

definition ref_class_names :: "string \<Rightarrow> string list" where
  "ref_class_names text = map (\<lambda>m. toLowerCase (class_name m)) (match_all False class_re text)"

definition ref_function_names :: "string \<Rightarrow> string list" where
  "ref_function_names text =
     filter kept (map (\<lambda>m. toLowerCase (function_name m)) (match_all False function_re text))"

definition ref_weight :: "(char \<Rightarrow> bool) \<Rightarrow> string \<Rightarrow> string \<Rightarrow> nat" where
  "ref_weight P text t =
     count_list (ref_tokens P text) t + 10 * count_list (ref_class_names text) t
       + 5 * count_list (ref_function_names text) t"

definition extract_ref :: "(char \<Rightarrow> bool) \<Rightarrow> string \<Rightarrow> string \<Rightarrow> nat option" where
  \<comment> \<open>the term map of the four-step definition; \<open>P\<close> says which characters step 1 keeps\<close>
  "extract_ref P text t = (if ref_weight P text t = 0 then None else Some (ref_weight P text t))"

definition plain_class :: "string \<Rightarrow> bool" where
  \<comment> \<open>a match of \<open>class <Name>\<close> with exactly one space before the name\<close>
  "plain_class m = (m = ''class '' @ class_name m)"

definition plain_function :: "string \<Rightarrow> bool" where
  \<comment> \<open>not a match of \<open><name>(\<close> with whitespace before the parenthesis and a name
      that ends in, but is not, \<open>function\<close>\<close>
  "plain_function m =
     (\<not> (m \<noteq> [] \<and> last m = CHR ''('' \<and> butlast m \<noteq> [] \<and> is_space_char (last (butlast m))
          \<and> endsWith (function_name m) ''function'' \<and> function_name m \<noteq> ''function''))"

definition sample_text :: string where
  "sample_text = ''class UserService { function add(a, b) { return foo_bar(a) + this.add (b, a); } }''"

definition positive :: "nat jsmap \<Rightarrow> bool" where
  "positive m = list_all (\<lambda>en. 0 < snd en) m"

definition mail_env :: env where
  \<comment> \<open>a project with two source directories: in \<open>src\<close> one file is indexed under
      \<open>emailnotifier\<close> and one under nothing; the only file of \<open>lib\<close> has no keyword\<close>
  "mail_env =
     \<lparr>cwd = ''/proj'',
      existsSync = (\<lambda>p. False),
      readFileSync =
        (\<lambda>p. if p = ''/proj/src/notify.ts'' then Some ''emailnotifier''
             else if p = ''/proj/src/x.ts'' then Some ''x''
             else if p = ''/proj/lib/y.ts'' then Some ''if (a) return b;''
             else None),
      readdirSync = (\<lambda>p. Some []),
      statSync_isDirectory = (\<lambda>p. None),
      glob =
        (\<lambda>pat. if pat = ''/proj/src/**/*.ts'' then Some [''/proj/src/notify.ts'', ''/proj/src/x.ts'']
               else if pat = ''/proj/lib/**/*.ts'' then Some [''/proj/lib/y.ts'']
               else Some []),
      ignores = (\<lambda>ig p. Some False),
      md5_hex = (\<lambda>s. [])\<rparr>"

definition mail_state :: engine where
  \<comment> \<open>the engine after \<open>createIndex('/proj/src')\<close> and \<open>createIndex('/proj/lib')\<close>\<close>
  "mail_state =
     (case createIndex mail_env new_engine ''/proj/src'' None of
        Some (r, st) \<Rightarrow>
          (case createIndex mail_env st ''/proj/lib'' None of
             Some (r', st') \<Rightarrow> st'
           | None \<Rightarrow> st)
      | None \<Rightarrow> new_engine)"

definition blank_spaces :: "string \<Rightarrow> bool" where
  "blank_spaces c = (\<forall>x \<in> set c. is_space_char x \<longrightarrow> x = CHR '' '')"

definition extraction_tokens :: "string \<Rightarrow> string list" where
  \<comment> \<open>the words that \<open>extractKeywords\<close> counts: those of the normalized text that are
      longer than 2 and no common keyword\<close>
  "extraction_tokens code =
     filter (\<lambda>word. \<not> (length word \<le> 2 \<or> isCommonKeyword word))
       (split_char CHR '' '' (normalizedCode code))"

definition subclass_engine :: engine where
  \<comment> \<open>an index of one file, whose text is the word \<open>subclass\<close>\<close>
  "subclass_engine =
     \<lparr>directoryIndices =
        [''/proj/src/'' \<mapsto>
           [\<lparr>m_file = ''/proj/src/s.ts'', m_code = ''subclass'',
             m_keywords = extractKeywords ''subclass'', m_checksum = []\<rparr>]],
      indexedExtensions = [''/proj/src/'' \<mapsto> defaultExtensions]\<rparr>"



section \<open>Scoring on pre-built keyword indices\<close>

lemma startsWith_iff: "startsWith s p \<longleftrightarrow> (\<exists>b. s = p @ b)"
  by (induction s p rule: startsWith.induct) auto

lemma str_includes_iff: "str_includes s p \<longleftrightarrow> (\<exists>a b. s = a @ p @ b)"
proof (induction s)
  case Nil
  then show ?case by auto
next
  case (Cons x xs)
  show ?case
  proof
    assume "str_includes (x # xs) p"
    then consider "startsWith (x # xs) p" | "str_includes xs p" by auto
    then show "\<exists>a b. x # xs = a @ p @ b"
    proof cases
      case 1
      then obtain b where "x # xs = p @ b" using startsWith_iff by blast
      then have "x # xs = [] @ p @ b" by simp
      then show ?thesis by blast
    next
      case 2
      then obtain a b where "xs = a @ p @ b" using Cons.IH by blast
      then have "x # xs = (x # a) @ p @ b" by simp
      then show ?thesis by blast
    qed
  next
    assume "\<exists>a b. x # xs = a @ p @ b"
    then obtain a b where ab: "x # xs = a @ p @ b" by blast
    show "str_includes (x # xs) p"
    proof (cases a)
      case Nil
      then have "startsWith (x # xs) p" using ab startsWith_iff by auto
      then show ?thesis by simp
    next
      case (Cons y ys)
      then have "xs = ys @ p @ b" using ab by simp
      then have "str_includes xs p" using Cons.IH by blast
      then show ?thesis by simp
    qed
  qed
qed

lemma foldl_partial_match:
  "foldl (partial_match kw) s tm =
     s + (\<Sum>en\<leftarrow>tm. if proper_substring kw (fst en) then real (snd en) * 0.005 else 0)"
  by (induction tm arbitrary: s) (auto simp: partial_match_def proper_substring_def split: prod.splits)

lemma termWeight_entry: "distinct (map fst tm) \<Longrightarrow> en \<in> set tm \<Longrightarrow> termWeight tm (fst en) = snd en"
  by (cases en) (simp add: termWeight_def)

lemma entries_sum_terms:
  assumes "distinct (map fst tm)"
  shows "(\<Sum>en\<leftarrow>tm. if P (fst en) then real (snd en) * c else 0)
           = (\<Sum>t\<leftarrow>filter P (indexed_terms tm). real (termWeight tm t) * c)"
proof -
  have "(\<Sum>en\<leftarrow>tm. if P (fst en) then real (snd en) * c else 0)
          = (\<Sum>en\<leftarrow>tm. if P (fst en) then real (termWeight tm (fst en)) * c else 0)"
    by (rule arg_cong[where f = sum_list], rule map_cong) (auto simp: termWeight_entry[OF assms])
  also have "\<dots> = (\<Sum>t\<leftarrow>map fst tm. if P t then real (termWeight tm t) * c else 0)"
    by (simp add: comp_def)
  also have "\<dots> = (\<Sum>t\<leftarrow>filter P (map fst tm). real (termWeight tm t) * c)"
    by (simp add: sum_list_map_filter')
  finally show ?thesis using assms by (simp add: indexed_terms_def distinct_remdups_id)
qed

lemma foldl_prebuilt_keyword:
  "foldl (prebuilt_keyword tm) s toks =
     s + (\<Sum>tok\<leftarrow>toks. real (get_or_0 tm tok) * 0.01
            + (\<Sum>en\<leftarrow>tm. if proper_substring tok (fst en) then real (snd en) * 0.005 else 0))"
  by (induction toks arbitrary: s) (simp_all add: prebuilt_keyword_def foldl_partial_match)

lemma prebuilt_score_spec:
  assumes "distinct (map fst tm)"
  shows "foldl (prebuilt_keyword tm) 0 toks = prebuilt_spec tm toks"
  by (simp add: foldl_prebuilt_keyword prebuilt_spec_def entries_sum_terms[OF assms]
      get_or_0_def termWeight_def)

lemma find_snoc:
  "find P (xs @ [x]) = (case find P xs of None \<Rightarrow> (if P x then Some x else None) | Some y \<Rightarrow> Some y)"
  by (induction xs) auto

lemma map_of_foldl_scores:
  "map_of (foldl (\<lambda>scores item. if 0 < sc item then AList.update (m_file item) (sc item) scores else scores) acc md) f
     = (case find (\<lambda>item. m_file item = f \<and> 0 < sc item) (rev md) of
          None \<Rightarrow> map_of acc f
        | Some item \<Rightarrow> Some (sc item))"
proof (induction md arbitrary: acc)
  case Nil
  then show ?case by simp
next
  case (Cons x xs)
  show ?case
    by (simp add: Cons.IH find_snoc update_conv' split: option.splits)
qed

lemma queryKeywords_email: "queryKeywords_of ''email'' = [''email'']"
  by code_simp

lemma emailnotifier_spec_pos:
  "0 < w \<Longrightarrow> 0 < prebuilt_spec [(''emailnotifier'', w)] [''email'']"
  by (simp add: prebuilt_spec_def indexed_terms_def proper_substring_def termWeight_def)

lemma hasKeywordIndices_iff:
  "hasKeywordIndices md \<longleftrightarrow> (\<exists>item \<in> set md. m_keywords item \<noteq> [])"
  by (simp add: hasKeywordIndices_def list_ex_iff)

lemma foldl_prebuilt_item_cong:
  assumes "\<forall>item \<in> set md. distinct (map fst (m_keywords item))"
  shows "foldl (prebuilt_item toks) acc md =
         foldl (\<lambda>scores item. if 0 < prebuilt_spec (m_keywords item) toks
                  then AList.update (m_file item) (prebuilt_spec (m_keywords item) toks) scores
                  else scores) acc md"
  using assms
  by (induction md arbitrary: acc) (simp_all add: prebuilt_item_def prebuilt_score_spec)

lemma prebuilt_scores:
  assumes some: "\<exists>item \<in> set (getMetadataForDirectory e st directory). m_keywords item \<noteq> []"
    and dist: "\<forall>item \<in> set (getMetadataForDirectory e st directory).
                 distinct (map fst (m_keywords item))"
  shows "\<exists>scores. keywordSearch e st query directory = Inr scores
           \<and> (\<forall>f. map_of scores f =
                 map_option (\<lambda>item. prebuilt_spec (m_keywords item) (queryKeywords_of query))
                   (find (\<lambda>item. m_file item = f
                            \<and> 0 < prebuilt_spec (m_keywords item) (queryKeywords_of query))
                      (rev (getMetadataForDirectory e st directory))))
           \<and> (\<forall>item \<in> set (getMetadataForDirectory e st directory). \<forall>w.
                 query = ''email'' \<and> m_keywords item = [(''emailnotifier'', w)] \<and> 0 < w
                 \<longrightarrow> (\<exists>s. map_of scores (m_file item) = Some s \<and> 0 < s))"
proof -
  define md where "md = getMetadataForDirectory e st directory"
  define toks where "toks = queryKeywords_of query"
  define sc :: "CodeMetadata \<Rightarrow> real"
    where "sc = (\<lambda>item. prebuilt_spec (m_keywords item) toks)"
  define scores where "scores =
    foldl (\<lambda>scores item. if 0 < sc item then AList.update (m_file item) (sc item) scores
             else scores) [] md"
  have mode: "hasKeywordIndices md"
    using some by (simp add: hasKeywordIndices_iff md_def)
  have lookup: "map_of scores f =
      map_option sc (find (\<lambda>item. m_file item = f \<and> 0 < sc item) (rev md))" for f
    unfolding scores_def by (simp add: map_of_foldl_scores split: option.splits)
  have empty: "toks = [] \<Longrightarrow> scores = []"
  proof -
    assume "toks = []"
    then have "sc item = 0" for item by (simp add: sc_def prebuilt_spec_def)
    then show "scores = []" unfolding scores_def by (induction md) simp_all
  qed
  have run: "keywordSearch e st query directory = Inr scores"
  proof (cases "toks = []")
    case True
    then show ?thesis using empty by (simp add: keywordSearch_def toks_def)
  next
    case False
    then show ?thesis
      using mode dist unfolding scores_def sc_def
      by (simp add: keywordSearch_def toks_def[symmetric] md_def[symmetric]
          foldl_prebuilt_item_cong)
  qed
  have email: "\<exists>s. map_of scores (m_file item) = Some s \<and> 0 < s"
    if "item \<in> set md" "query = ''email''" "m_keywords item = [(''emailnotifier'', w)]" "0 < w"
    for item w
  proof -
    have "0 < sc item"
      using that by (simp add: sc_def toks_def queryKeywords_email emailnotifier_spec_pos)
    then have "\<exists>x \<in> set (rev md). m_file x = m_file item \<and> 0 < sc x"
      using that(1) by auto
    then obtain it where it: "find (\<lambda>x. m_file x = m_file item \<and> 0 < sc x) (rev md) = Some it"
      by (cases "find (\<lambda>x. m_file x = m_file item \<and> 0 < sc x) (rev md)")
         (auto simp: find_None_iff)
    then have "0 < sc it" by (auto simp: find_Some_iff)
    then show ?thesis using it lookup by simp
  qed
  show ?thesis
    using run lookup email
    unfolding md_def[symmetric] toks_def[symmetric] sc_def by blast
qed

section \<open>Ranking of the results\<close>

lemma set_insert_by: "set (insert_by cmp x ys) = insert x (set ys)"
  by (induction ys) auto

lemma mset_insert_by: "mset (insert_by cmp x ys) = add_mset x (mset ys)"
  by (induction ys) auto

lemma mset_sort_by: "mset (sort_by cmp xs) = mset xs"
  by (induction xs) (simp_all add: sort_by_def mset_insert_by)

lemma sorted_insert_by:
  "sorted_wrt (\<lambda>a b. k b \<le> k a) ys \<Longrightarrow>
   sorted_wrt (\<lambda>a b. k b \<le> k a) (insert_by (\<lambda>a b. k b - (k a :: real)) x ys)"
  by (induction ys) (auto simp: set_insert_by)

lemma sorted_sort_by:
  "sorted_wrt (\<lambda>a b. k b \<le> k a) (sort_by (\<lambda>a b. k b - (k a :: real)) xs)"
  by (induction xs) (simp_all add: sort_by_def sorted_insert_by)

lemma filter_insert_by:
  "sorted_wrt (\<lambda>a b. k b \<le> k a) ys \<Longrightarrow>
   filter (\<lambda>y. k y = v) (insert_by (\<lambda>a b. k b - (k a :: real)) x ys) =
     (if k x = v then x # filter (\<lambda>y. k y = v) ys else filter (\<lambda>y. k y = v) ys)"
  by (induction ys) auto

lemma filter_sort_by:
  "filter (\<lambda>y. k y = v) (sort_by (\<lambda>a b. k b - (k a :: real)) xs) = filter (\<lambda>y. k y = v) xs"
proof (induction xs)
  case Nil
  then show ?case by (simp add: sort_by_def)
next
  case (Cons x xs)
  have "sort_by (\<lambda>a b. k b - k a) (x # xs) = insert_by (\<lambda>a b. k b - k a) x (sort_by (\<lambda>a b. k b - k a) xs)"
    by (simp add: sort_by_def)
  then show ?case
    using Cons.IH by (simp add: filter_insert_by[OF sorted_sort_by])
qed

lemma length_with_ranks: "length (with_ranks rs) = length rs"
  by (simp add: with_ranks_def)

lemma nth_with_ranks: "i < length rs \<Longrightarrow> with_ranks rs ! i = (rs ! i)\<lparr>rank := i + 1\<rparr>"
  by (simp add: with_ranks_def nth_enumerate_eq)

lemma with_ranks_map:
  assumes "\<And>r n. g (r\<lparr>rank := n\<rparr>) = g r"
  shows "map g (with_ranks rs) = map g rs"
  by (rule nth_equalityI) (simp_all add: length_with_ranks nth_with_ranks assms)

lemma scored_results_entries:
  "scored_results md scores = Inr rs \<Longrightarrow> map (\<lambda>r. (r_file r, similarityScore r)) rs = scores"
  by (induction md scores arbitrary: rs rule: scored_results.induct)
     (auto split: option.splits sum.splits)

lemma update_positive:
  "\<forall>en \<in> set acc. 0 < snd en \<Longrightarrow> 0 < (v::real) \<Longrightarrow> \<forall>en \<in> set (AList.update k v acc). 0 < snd en"
  by (induction acc) auto

lemma prebuilt_positive:
  "\<forall>en \<in> set acc. 0 < snd en \<Longrightarrow> \<forall>en \<in> set (foldl (prebuilt_item toks) acc md). 0 < snd en"
proof (induction md arbitrary: acc)
  case Nil
  then show ?case by simp
next
  case (Cons x xs)
  have "\<forall>en \<in> set (prebuilt_item toks acc x). 0 < snd en"
    using update_positive[OF Cons.prems] Cons.prems by (simp add: prebuilt_item_def Let_def)
  then show ?case using Cons.IH by simp
qed

lemma fallback_positive:
  "fallback_items toks acc md = Inr scores \<Longrightarrow> \<forall>en \<in> set acc. 0 < snd en
     \<Longrightarrow> \<forall>en \<in> set scores. 0 < snd en"
proof (induction md arbitrary: acc)
  case Nil
  then show ?case by simp
next
  case (Cons x xs)
  from Cons.prems(1) obtain sc where sc: "fallback_score (toLowerCase (m_code x)) 0 toks = Inr sc"
    and rest: "fallback_items toks (if 0 < sc then AList.update (m_file x) sc acc else acc) xs = Inr scores"
    by (auto split: sum.splits)
  have "\<forall>en \<in> set (if 0 < sc then AList.update (m_file x) sc acc else acc). 0 < snd en"
    using update_positive[OF Cons.prems(2)] Cons.prems(2) by simp
  then show ?case using Cons.IH[OF rest] by simp
qed

lemma keywordSearch_positive:
  assumes "keywordSearch e st query directory = Inr scores"
  shows "\<forall>en \<in> set scores. 0 < snd en"
proof (cases "queryKeywords_of query = []")
  case True
  then show ?thesis using assms by (simp add: keywordSearch_def)
next
  case False
  show ?thesis
  proof (cases "hasKeywordIndices (getMetadataForDirectory e st directory)")
    case True
    then have "scores = foldl (prebuilt_item (queryKeywords_of query)) [] (getMetadataForDirectory e st directory)"
      using assms False by (simp add: keywordSearch_def Let_def)
    then show ?thesis using prebuilt_positive[of "[]"] by simp
  next
    case nf: False
    then have "fallback_items (queryKeywords_of query) [] (getMetadataForDirectory e st directory) = Inr scores"
      using assms False by (simp add: keywordSearch_def Let_def)
    then show ?thesis using fallback_positive[of _ "[]"] by simp
  qed
qed

lemma getNormalizedDirectory_cwd:
  "cwd e' = cwd e \<Longrightarrow> getNormalizedDirectory e' directory = getNormalizedDirectory e directory"
  by (simp add: getNormalizedDirectory_def)

lemma getMetadataForDirectory_cwd:
  "cwd e' = cwd e \<Longrightarrow> getMetadataForDirectory e' st directory = getMetadataForDirectory e st directory"
  by (simp add: getMetadataForDirectory_def getNormalizedDirectory_def)

lemma keywordSearch_cwd:
  "cwd e' = cwd e \<Longrightarrow> keywordSearch e' st query directory = keywordSearch e st query directory"
  using getMetadataForDirectory_cwd[of e' e st directory] by (simp add: keywordSearch_def Let_def)

lemma ranked_results_cwd:
  "cwd e' = cwd e \<Longrightarrow> ranked_results e' st query directory = ranked_results e st query directory"
  using getMetadataForDirectory_cwd[of e' e st directory] keywordSearch_cwd[of e' e st query directory]
  by (simp add: ranked_results_def Let_def)

lemma createIndex_key:
  "createIndex e st directory exts = Some (Inr u, st')
     \<Longrightarrow> directoryIndices st' (getNormalizedDirectory e directory) \<noteq> None"
  by (auto simp: createIndex_def Let_def split: option.splits sum.splits)

lemma search_present:
  assumes "directoryIndices st (getNormalizedDirectory e directory) \<noteq> None"
  shows "search e st query directory = Some (ranked_results e st query directory, st)"
  using assms by (auto simp: search_def Let_def)

lemma search_Inr_D:
  assumes "search e st query directory = Some (Inr rs, st')"
  shows "directoryIndices st' (getNormalizedDirectory e directory) \<noteq> None
    \<and> ranked_results e st' query directory = Inr rs"
proof (cases "directoryIndices st (getNormalizedDirectory e directory) = None")
  case True
  define built where "built = createIndex e st directory
      (Some (case indexedExtensions st (getNormalizedDirectory e directory) of
               None \<Rightarrow> defaultExtensions | Some exts \<Rightarrow> exts))"
  have s: "search e st query directory =
      (case built of None \<Rightarrow> None | Some (Inl err, st1) \<Rightarrow> Some (Inl err, st1)
       | Some (Inr u, st1) \<Rightarrow> Some (ranked_results e st1 query directory, st1))"
    using True by (simp add: search_def Let_def built_def)
  from assms s obtain u where b: "built = Some (Inr u, st')"
    and r: "ranked_results e st' query directory = Inr rs"
    by (auto split: option.splits sum.splits prod.splits)
  show ?thesis using createIndex_key[OF b[unfolded built_def]] r by simp
next
  case False
  then show ?thesis using assms by (auto simp: search_present)
qed

lemma ranked_results_D:
  assumes "ranked_results e st query directory = Inr rs"
  shows "\<exists>scores srs. keywordSearch e st query directory = Inr scores
          \<and> scored_results (getMetadataForDirectory e st directory) scores = Inr srs
          \<and> rs = with_ranks (sort_by by_score srs)"
  using assms by (auto simp: ranked_results_def Let_def split: if_splits sum.splits)

text \<open>
  Claim C5, as amended.  The results of a successful \<open>search\<close> are in descending order
  of \<open>similarityScore\<close>, equal scores allowed; \<open>rank\<close> is the 1-based position; every
  score is above 0; the results are the entries of the score map of \<open>keywordSearch\<close>,
  and results of equal score keep the order they have in that map; running the search
  again on the resulting engine, whatever the file system then holds, returns the same
  results and leaves the engine as it is.
\<close>

theorem search_ranking:
  assumes "search e st query directory = Some (Inr rs, st')"
  shows "descending rs
    \<and> (\<forall>i<length rs. rank (rs ! i) = i + 1)
    \<and> (\<forall>r \<in> set rs. 0 < similarityScore r)
    \<and> (\<exists>scores. keywordSearch e st' query directory = Inr scores
          \<and> mset (map (\<lambda>r. (r_file r, similarityScore r)) rs) = mset scores
          \<and> (\<forall>v. map (\<lambda>r. (r_file r, similarityScore r)) (filter (\<lambda>r. similarityScore r = v) rs)
                   = filter (\<lambda>en. snd en = v) scores))
    \<and> (\<forall>e'::env. cwd e' = cwd e \<longrightarrow> search e' st' query directory = Some (Inr rs, st'))"
proof -
  from search_Inr_D[OF assms] have
    key: "directoryIndices st' (getNormalizedDirectory e directory) \<noteq> None"
    and rr: "ranked_results e st' query directory = Inr rs"
    by blast+
  from ranked_results_D[OF rr] obtain scores srs where
    ks: "keywordSearch e st' query directory = Inr scores"
    and sr: "scored_results (getMetadataForDirectory e st' directory) scores = Inr srs"
    and rs: "rs = with_ranks (sort_by by_score srs)"
    by blast
  let ?sorted = "sort_by by_score srs"
  let ?pair = "\<lambda>r. (r_file r, similarityScore r)"
  have by_score: "by_score = (\<lambda>a b. similarityScore b - similarityScore a)"
    by (simp add: by_score_def fun_eq_iff)
  have scores_eq: "map similarityScore rs = map similarityScore ?sorted"
    unfolding rs by (rule with_ranks_map) simp
  have pairs_eq: "map ?pair rs = map ?pair ?sorted"
    unfolding rs by (rule with_ranks_map) simp
  have entries: "map ?pair srs = scores"
    using scored_results_entries[OF sr] .
  have d: "descending rs"
  proof -
    have "sorted_wrt (\<lambda>a b. b \<le> a) (map similarityScore ?sorted)"
      unfolding by_score using sorted_sort_by[of similarityScore srs]
      by (simp add: sorted_wrt_map)
    then have "sorted_wrt (\<lambda>a b. b \<le> a) (map similarityScore rs)"
      using scores_eq by simp
    then show ?thesis by (simp add: descending_def sorted_wrt_map)
  qed
  have r: "\<forall>i<length rs. rank (rs ! i) = i + 1"
    unfolding rs by (simp add: length_with_ranks nth_with_ranks)
  have m: "mset (map ?pair rs) = mset scores"
  proof -
    have "mset (map ?pair ?sorted) = image_mset ?pair (mset ?sorted)" by simp
    also have "\<dots> = image_mset ?pair (mset srs)" by (simp add: mset_sort_by)
    also have "\<dots> = mset (map ?pair srs)" by simp
    finally show ?thesis using pairs_eq entries by simp
  qed
  have p: "\<forall>r \<in> set rs. 0 < similarityScore r"
  proof
    fix r assume "r \<in> set rs"
    then have "?pair r \<in> set (map ?pair rs)" by simp
    then have "?pair r \<in> set scores" using m by (metis set_mset_mset)
    then show "0 < similarityScore r" using keywordSearch_positive[OF ks] by fastforce
  qed
  have s: "map ?pair (filter (\<lambda>r. similarityScore r = v) rs) = filter (\<lambda>en. snd en = v) scores" for v
  proof -
    have "map ?pair (filter (\<lambda>r. similarityScore r = v) rs)
            = filter (\<lambda>en. snd en = v) (map ?pair rs)"
      by (simp add: filter_map comp_def)
    also have "\<dots> = filter (\<lambda>en. snd en = v) (map ?pair ?sorted)"
      using pairs_eq by simp
    also have "\<dots> = map ?pair (filter (\<lambda>r. similarityScore r = v) ?sorted)"
      by (simp add: filter_map comp_def)
    also have "\<dots> = map ?pair (filter (\<lambda>r. similarityScore r = v) srs)"
      unfolding by_score by (simp add: filter_sort_by)
    also have "\<dots> = filter (\<lambda>en. snd en = v) (map ?pair srs)"
      by (simp add: filter_map comp_def)
    finally show ?thesis using entries by simp
  qed
  have t: "\<forall>e'::env. cwd e' = cwd e \<longrightarrow> search e' st' query directory = Some (Inr rs, st')"
  proof (intro allI impI)
    fix e' :: env assume c: "cwd e' = cwd e"
    have "directoryIndices st' (getNormalizedDirectory e' directory) \<noteq> None"
      using key getNormalizedDirectory_cwd[OF c] by simp
    then show "search e' st' query directory = Some (Inr rs, st')"
      using rr by (simp add: search_present ranked_results_cwd[OF c])
  qed
  show ?thesis using d r p ks m s t by blast
qed

text \<open>
  The theorem at an index of three files, two of which score the same for the query
  \<open>email\<close>.
\<close>

theorem search_ranking_witness:
  "descending tie_results
     \<and> rank (tie_results ! 2) = 3
     \<and> (\<exists>scores. keywordSearch bare_env tie_engine ''email'' ''/proj/src'' = Inr scores
           \<and> mset (map (\<lambda>r. (r_file r, similarityScore r)) tie_results) = mset scores)
     \<and> search bare_env tie_engine ''email'' ''/proj/src'' = Some (Inr tie_results, tie_engine)"
proof -
  have key: "directoryIndices tie_engine (getNormalizedDirectory bare_env ''/proj/src'') \<noteq> None"
    by code_simp
  have rr: "ranked_results bare_env tie_engine ''email'' ''/proj/src'' = Inr tie_results"
    by code_simp
  have h: "search bare_env tie_engine ''email'' ''/proj/src'' = Some (Inr tie_results, tie_engine)"
    using search_present[OF key] rr by simp
  have len: "2 < length tie_results" by (simp add: tie_results_def)
  from search_ranking[OF h] len h show ?thesis by auto
qed

text \<open>
  The claim as stated asks for a strictly descending order.  The two files of equal
  score are both returned, at ranks 2 and 3.
\<close>

theorem strictly_descending_counterexample:
  "map_option fst (search bare_env tie_engine ''email'' ''/proj/src'') = Some (Inr tie_results)
     \<and> similarityScore (tie_results ! 1) = similarityScore (tie_results ! 2)
     \<and> \<not> strictly_descending tie_results"
  by code_simp

section \<open>Tokenizing the query\<close>

lemma star_list_nonempty: "star_list P s \<noteq> []"
  by (cases s) auto

lemma hd_star_list: "hd (star_list P s) = dropWhile P s"
  by (induction s) (auto simp: star_list_nonempty)

lemma star_list_shorter: "t \<in> set (star_list P s) \<Longrightarrow> length t \<le> length s"
  by (induction s arbitrary: t) (auto split: if_splits intro: le_SucI)

lemma atom_ok_class [simp]: "atom_ok ci ASpace = is_space_char" "atom_ok ci AWord = is_word_char"
  by (simp_all add: fun_eq_iff)

lemma ms_Star_Sym: "ms ci (Star (Sym a)) s = star_list (atom_ok ci a) s"
proof (induction s)
  case Nil
  then show ?case by simp
next
  case (Cons x xs)
  then show ?case by simp
qed

lemma ms_Plus_Sym:
  "ms ci (Plus_re (Sym a)) s =
     (case s of [] \<Rightarrow> [] | x # xs \<Rightarrow> if atom_ok ci a x then star_list (atom_ok ci a) xs else [])"
  by (cases s) (simp_all add: Plus_re_def ms_Star_Sym del: ms.simps(7))

lemma split_go_ws:
  "split_go (Plus_re (Sym ASpace)) acc s =
     (case s of
        [] \<Rightarrow> [rev acc]
      | x # xs \<Rightarrow>
          if is_space_char x
          then rev acc # split_go (Plus_re (Sym ASpace)) [] (dropWhile is_space_char xs)
          else split_go (Plus_re (Sym ASpace)) (x # acc) xs)"
proof (cases s)
  case Nil
  then show ?thesis by (simp add: split_go.simps)
next
  case (Cons x xs)
  show ?thesis
  proof (cases "is_space_char x")
    case True
    obtain t ts where l: "star_list is_space_char xs = t # ts"
      using star_list_nonempty by (cases "star_list is_space_char xs") auto
    have t: "t = dropWhile is_space_char xs" using hd_star_list[of is_space_char xs] l by simp
    have "length t < length (x # xs)"
      using t length_dropWhile_le[of is_space_char xs] by simp
    then show ?thesis
      using Cons True l t
      by (subst split_go.simps) (simp add: ms_Plus_Sym)
  next
    case False
    then show ?thesis
      using Cons by (subst split_go.simps) (simp add: ms_Plus_Sym)
  qed
qed

lemma tokens_ws_Nil: "tokens_ws [] = []"
  by (simp add: tokens_ws.simps)

lemma tokens_ws_space: "is_space_char x \<Longrightarrow> tokens_ws (x # xs) = tokens_ws xs"
  by (subst tokens_ws.simps, subst (2) tokens_ws.simps) simp

lemma tokens_ws_dropWhile: "tokens_ws (dropWhile is_space_char s) = tokens_ws s"
  by (induction s) (simp_all add: tokens_ws_space)

lemma tokens_ws_token:
  assumes "t \<noteq> []" "\<forall>c \<in> set t. \<not> is_space_char c"
  shows "tokens_ws t = [t]"
    and "is_space_char x \<Longrightarrow> tokens_ws (t @ x # xs) = t # tokens_ws xs"
proof -
  obtain y ys where t: "t = y # ys" using assms(1) by (cases t) auto
  have y: "\<not> is_space_char y" and ys: "\<forall>c \<in> set ys. \<not> is_space_char c"
    using assms(2) t by auto
  have tk: "takeWhile (\<lambda>c. \<not> is_space_char c) ys = ys"
    using ys by (simp add: takeWhile_eq_all_conv)
  have dr: "dropWhile (\<lambda>c. \<not> is_space_char c) ys = []"
    using ys by simp
  show "tokens_ws t = [t]"
    by (subst tokens_ws.simps) (simp add: t y tk dr tokens_ws_Nil)
  assume x: "is_space_char x"
  have tk2: "takeWhile (\<lambda>c. \<not> is_space_char c) (ys @ x # xs) = ys"
    using ys x by (simp add: takeWhile_append2)
  have dr2: "dropWhile (\<lambda>c. \<not> is_space_char c) (ys @ x # xs) = x # xs"
    using ys x by (simp add: dropWhile_append2)
  show "tokens_ws (t @ x # xs) = t # tokens_ws xs"
    by (subst tokens_ws.simps) (simp add: t y tk2 dr2 x tokens_ws_space)
qed

lemma split_go_tokens:
  "\<forall>c \<in> set acc. \<not> is_space_char c \<Longrightarrow>
   filter (\<lambda>t. t \<noteq> []) (split_go (Plus_re (Sym ASpace)) acc s) = tokens_ws (rev acc @ s)"
proof (induction s arbitrary: acc rule: length_induct)
  case (1 s)
  show ?case
  proof (cases s)
    case Nil
    show ?thesis
    proof (cases "acc = []")
      case True
      then show ?thesis using Nil by (subst split_go_ws) (simp add: tokens_ws_Nil)
    next
      case False
      then show ?thesis
        using Nil tokens_ws_token(1)[of "rev acc"] "1.prems"
        by (subst split_go_ws) simp
    qed
  next
    case (Cons x xs)
    show ?thesis
    proof (cases "is_space_char x")
      case True
      have len: "length (dropWhile is_space_char xs) < length s"
        using Cons length_dropWhile_le[of is_space_char xs] by simp
      have ih: "filter (\<lambda>t. t \<noteq> []) (split_go (Plus_re (Sym ASpace)) [] (dropWhile is_space_char xs))
                  = tokens_ws xs"
        using "1.IH" len by (simp add: tokens_ws_dropWhile)
      show ?thesis
      proof (cases "acc = []")
        case True
        then show ?thesis
          using Cons \<open>is_space_char x\<close> ih by (subst split_go_ws) (simp add: tokens_ws_space)
      next
        case False
        then show ?thesis
          using Cons \<open>is_space_char x\<close> ih tokens_ws_token(2)[of "rev acc" x xs] "1.prems"
          by (subst split_go_ws) simp
      qed
    next
      case False
      have "filter (\<lambda>t. t \<noteq> []) (split_go (Plus_re (Sym ASpace)) (x # acc) xs)
              = tokens_ws (rev (x # acc) @ xs)"
        using "1.IH" Cons False "1.prems" by simp
      then show ?thesis
        using Cons False by (subst split_go_ws) simp
    qed
  qed
qed

lemma queryKeywords_tokens:
  "queryKeywords_of query = filter (\<lambda>t. 2 < length t) (tokens_ws (toLowerCase query))"
proof -
  let ?s = "toLowerCase query"
  have keep: "filter (\<lambda>t. 2 < length t) xs = filter (\<lambda>t. 2 < length t) (filter (\<lambda>t. t \<noteq> []) xs)"
    for xs :: "string list"
    by (induction xs) auto
  show ?thesis
  proof (cases "?s = []")
    case True
    then show ?thesis
      by (simp add: queryKeywords_of_def split_re_def ms_Plus_Sym tokens_ws_Nil)
  next
    case False
    have "queryKeywords_of query = filter (\<lambda>t. 2 < length t) (split_go (Plus_re (Sym ASpace)) [] ?s)"
      using False by (simp add: queryKeywords_of_def split_re_def)
    also have "\<dots> = filter (\<lambda>t. 2 < length t) (tokens_ws ?s)"
      using split_go_tokens[of "[]" ?s] by (subst keep) simp
    finally show ?thesis .
  qed
qed

lemma ranked_results_no_tokens:
  assumes "getMetadataForDirectory e st directory \<noteq> []" "queryKeywords_of query = []"
  shows "ranked_results e st query directory = Inr []"
  using assms
  by (simp add: ranked_results_def keywordSearch_def with_ranks_def sort_by_def)

section \<open>Keyword extraction\<close>

lemma replace_all_blank:
  "replace_all False (NSet [AWord, ASpace]) '' '' s = blank_unless is_word_char s"
proof (induction s)
  case Nil
  show ?case by (simp add: replace_all.simps blank_unless_def)
next
  case (Cons x xs)
  then show ?case
    by (subst replace_all.simps) (simp add: blank_unless_def)
qed

lemma replace_all_collapse:
  "replace_all False (Plus_re (Sym ASpace)) '' '' s = collapse_ws s"
proof (induction s rule: collapse_ws.induct)
  case 1
  show ?case by (subst replace_all.simps) (simp add: ms_Plus_Sym)
next
  case (2 x xs)
  show ?case
  proof (cases "is_space_char x")
    case True
    have "star_list is_space_char xs = hd (star_list is_space_char xs) # tl (star_list is_space_char xs)"
      using star_list_nonempty[of is_space_char xs] by simp
    then obtain ts where s: "star_list is_space_char xs = dropWhile is_space_char xs # ts"
      using hd_star_list[of is_space_char xs] by metis
    have l: "length (dropWhile is_space_char xs) < length (x # xs)"
      by (simp add: le_imp_less_Suc length_dropWhile_le)
    show ?thesis
      using True 2(1)[OF True] l
      by (subst replace_all.simps) (simp add: ms_Plus_Sym s)
  next
    case False
    then show ?thesis
      using 2(2)[OF False]
      by (subst replace_all.simps) (simp add: ms_Plus_Sym)
  qed
qed

lemma normalizedCode_ref: "normalizedCode text = ref_normalize is_word_char text"
  by (simp add: normalizedCode_def ref_normalize_def replace_all_blank replace_all_collapse)

lemma get_or_0_update:
  "get_or_0 (AList.update k v m) t = (if t = k then v else get_or_0 m t)"
  by (simp add: get_or_0_def update_conv')

lemma get_or_0_Nil: "get_or_0 [] t = 0"
  by (simp add: get_or_0_def)

lemma positive_update: "positive m \<Longrightarrow> 0 < v \<Longrightarrow> positive (AList.update k v m)"
  unfolding positive_def by (induction m) auto

lemma positive_map_of:
  "positive m \<Longrightarrow> map_of m t = (if get_or_0 m t = 0 then None else Some (get_or_0 m t))"
  unfolding positive_def get_or_0_def list_all_iff
  by (auto split: option.splits dest!: map_of_SomeD)

lemma count_word_weight:
  "get_or_0 (foldl count_word acc ws) t = get_or_0 acc t + count_list (filter kept ws) t"
  by (induction ws arbitrary: acc) (auto simp: count_word_def kept_def get_or_0_update)

lemma count_word_positive: "positive acc \<Longrightarrow> positive (foldl count_word acc ws)"
  by (induction ws arbitrary: acc) (auto simp: count_word_def positive_update)

lemma count_word_distinct: "distinct (map fst acc) \<Longrightarrow> distinct (map fst (foldl count_word acc ws))"
  by (induction ws arbitrary: acc) (auto simp: count_word_def distinct_update)

lemma add_class_weight:
  "get_or_0 (foldl add_class acc hs) t
     = get_or_0 acc t
       + 10 * count_list (map (\<lambda>m. toLowerCase (replace_first ''class '' [] m)) hs) t"
  by (induction hs arbitrary: acc) (auto simp: add_class_def Let_def get_or_0_update)

lemma add_class_positive: "positive acc \<Longrightarrow> positive (foldl add_class acc hs)"
  by (induction hs arbitrary: acc) (auto simp: add_class_def Let_def positive_update)

lemma add_class_distinct: "distinct (map fst acc) \<Longrightarrow> distinct (map fst (foldl add_class acc hs))"
  by (induction hs arbitrary: acc) (auto simp: add_class_def Let_def distinct_update)

lemma add_function_weight:
  "get_or_0 (foldl add_function acc hs) t
     = get_or_0 acc t
       + 5 * count_list (filter kept
               (map (\<lambda>m. toLowerCase (replace_all False function_strip_re [] m)) hs)) t"
  by (induction hs arbitrary: acc) (auto simp: add_function_def Let_def kept_def get_or_0_update)

lemma add_function_positive: "positive acc \<Longrightarrow> positive (foldl add_function acc hs)"
  by (induction hs arbitrary: acc) (auto simp: add_function_def Let_def positive_update)

lemma add_function_distinct:
  "distinct (map fst acc) \<Longrightarrow> distinct (map fst (foldl add_function acc hs))"
  by (induction hs arbitrary: acc) (auto simp: add_function_def Let_def distinct_update)

lemma extractKeywords_weight:
  "get_or_0 (extractKeywords text) t
     = count_list (ref_tokens is_word_char text) t
       + 10 * count_list (map (\<lambda>m. toLowerCase (replace_first ''class '' [] m))
                (match_all False class_re text)) t
       + 5 * count_list (filter kept
               (map (\<lambda>m. toLowerCase (replace_all False function_strip_re [] m))
                  (match_all False function_re text))) t"
  by (simp add: extractKeywords_def Let_def add_function_weight add_class_weight
      count_word_weight ref_tokens_def normalizedCode_ref get_or_0_Nil)

lemma extractKeywords_positive: "positive (extractKeywords text)"
proof -
  have "positive []" by (simp add: positive_def)
  then show ?thesis
    by (simp add: extractKeywords_def Let_def add_function_positive add_class_positive
        count_word_positive)
qed

lemma extractKeywords_distinct: "distinct (map fst (extractKeywords text))"
  by (simp add: extractKeywords_def Let_def add_function_distinct add_class_distinct
      count_word_distinct)

lemma replace_first_prefix: "p \<noteq> [] \<Longrightarrow> replace_first p [] (p @ n) = n"
proof -
  assume "p \<noteq> []"
  then obtain x xs where p: "p = x # xs" by (cases p) auto
  have "startsWith (p @ n) p" by (simp add: startsWith_iff)
  then show ?thesis unfolding p by simp
qed

lemma replace_first_plain: "plain_class m \<Longrightarrow> replace_first ''class '' [] m = class_name m"
proof -
  assume "plain_class m"
  then have m: "m = ''class '' @ class_name m" by (simp only: plain_class_def)
  have "replace_first ''class '' [] m = replace_first ''class '' [] (''class '' @ class_name m)"
    by (rule arg_cong[OF m])
  also have "\<dots> = class_name m" by (rule replace_first_prefix) simp
  finally show ?thesis .
qed

lemma space_not_word: "is_space_char c \<Longrightarrow> \<not> is_word_char c"
  by (auto simp: is_space_char_def is_word_char_def Let_def)

lemma paren_not_word: "is_word_char c \<Longrightarrow> c \<noteq> CHR ''(''"
proof
  assume w: "is_word_char c" and "c = CHR ''(''"
  moreover have "is_word_char CHR ''('' = False" by code_simp
  ultimately show False by simp
qed

lemma paren_not_space: "is_space_char c \<Longrightarrow> c \<noteq> CHR ''(''"
proof
  assume w: "is_space_char c" and "c = CHR ''(''"
  moreover have "is_space_char CHR ''('' = False" by code_simp
  ultimately show False by simp
qed

lemma concat_star:
  assumes "\<And>t. t \<noteq> [] \<Longrightarrow> P (hd t) \<Longrightarrow> f t = []"
  shows "concat (map f (star_list P s)) = f (dropWhile P s)"
  using assms by (induction s) auto

lemma ms_lit: "ms False (lit l) s = (if startsWith s l then [drop (length l) s] else [])"
proof (induction l arbitrary: s)
  case Nil
  show ?case by (simp add: lit_def seq_of_def)
next
  case (Cons c l)
  have l: "lit (c # l) = Seq (Sym (AChr c)) (lit l)" by (simp add: lit_def seq_of_def)
  show ?case
  proof (cases s)
    case Nil
    then show ?thesis by (simp add: l)
  next
    case (Cons x xs)
    then show ?thesis using Cons.IH[of xs] by (auto simp: l)
  qed
qed

lemma ms_Plus_Seq:
  "ms ci (Seq (Plus_re (Sym a)) r) s =
     (case s of [] \<Rightarrow> []
      | x # xs \<Rightarrow> if atom_ok ci a x then concat (map (ms ci r) (star_list (atom_ok ci a) xs)) else [])"
proof -
  have "ms ci (Seq (Plus_re (Sym a)) r) s = concat (map (ms ci r) (ms ci (Plus_re (Sym a)) s))"
    by simp
  then show ?thesis by (simp add: ms_Plus_Sym split: list.splits)
qed

lemma ms_Plus_word:
  "ms ci (Plus_re (Sym AWord)) s =
     (case s of [] \<Rightarrow> [] | x # xs \<Rightarrow> if is_word_char x then star_list is_word_char xs else [])"
  by (cases s) (simp_all add: ms_Plus_Sym del: ms.simps)

lemma ms_Plus_space:
  "ms ci (Plus_re (Sym ASpace)) s =
     (case s of [] \<Rightarrow> [] | x # xs \<Rightarrow> if is_space_char x then star_list is_space_char xs else [])"
  by (cases s) (simp_all add: ms_Plus_Sym del: ms.simps)

lemma ms_char:
  "ms False (Sym (AChr c0)) v = (case v of [] \<Rightarrow> [] | c # t \<Rightarrow> if c = c0 then [t] else [])"
  by (cases v) auto

lemma ms_ws_paren:
  "ms False (Seq (Star (Sym ASpace)) (Sym (AChr CHR ''(''))) u =
     (case dropWhile is_space_char u of [] \<Rightarrow> [] | c # t \<Rightarrow> if c = CHR ''('' then [t] else [])"
proof -
  have "ms False (Seq (Star (Sym ASpace)) (Sym (AChr CHR ''(''))) u
          = concat (map (ms False (Sym (AChr CHR ''(''))) (star_list is_space_char u))"
    by (simp only: ms.simps(5) ms_Star_Sym atom_ok_class)
  also have "\<dots> = ms False (Sym (AChr CHR ''('')) (dropWhile is_space_char u)"
  proof (rule concat_star)
    fix t :: string
    assume "t \<noteq> []" "is_space_char (hd t)"
    then show "ms False (Sym (AChr CHR ''('')) t = []"
      using paren_not_space[of "hd t"] by (cases t) auto
  qed
  also have "\<dots> = (case dropWhile is_space_char u of [] \<Rightarrow> []
                    | c # t \<Rightarrow> if c = CHR ''('' then [t] else [])"
    by (rule ms_char)
  finally show ?thesis .
qed

lemma ms_ws_word:
  "ms False (Seq (Plus_re (Sym ASpace)) (Plus_re (Sym AWord))) u =
     (case u of [] \<Rightarrow> []
      | x # xs \<Rightarrow>
          if is_space_char x
          then (case dropWhile is_space_char xs of [] \<Rightarrow> []
                | y # ys \<Rightarrow> if is_word_char y then star_list is_word_char ys else [])
          else [])"
proof (cases u)
  case Nil
  then show ?thesis by (simp add: ms_Plus_Seq del: ms.simps)
next
  case (Cons x xs)
  have "concat (map (ms False (Plus_re (Sym AWord))) (star_list is_space_char xs))
          = ms False (Plus_re (Sym AWord)) (dropWhile is_space_char xs)"
  proof (rule concat_star)
    fix t :: string
    assume "t \<noteq> []" "is_space_char (hd t)"
    then show "ms False (Plus_re (Sym AWord)) t = []"
      using space_not_word[of "hd t"] by (cases t) (auto simp add: ms_Plus_word simp del: ms.simps)
  qed
  then show ?thesis using Cons by (simp add: ms_Plus_Seq ms_Plus_word del: ms.simps)
qed

lemma ms_word_paren:
  "ms False (Seq (Plus_re (Sym AWord)) (Seq (Star (Sym ASpace)) (Sym (AChr CHR ''('')))) s =
     (case s of [] \<Rightarrow> []
      | x # xs \<Rightarrow>
          if is_word_char x
          then (case dropWhile is_space_char (dropWhile is_word_char xs) of [] \<Rightarrow> []
                | c # t \<Rightarrow> if c = CHR ''('' then [t] else [])
          else [])"
proof (cases s)
  case Nil
  then show ?thesis by (simp add: ms_Plus_Seq del: ms.simps)
next
  case (Cons x xs)
  let ?r = "Seq (Star (Sym ASpace)) (Sym (AChr CHR ''(''))"
  have "concat (map (ms False ?r) (star_list is_word_char xs))
          = ms False ?r (dropWhile is_word_char xs)"
  proof (rule concat_star)
    fix t :: string
    assume t: "t \<noteq> []" "is_word_char (hd t)"
    then have "\<not> is_space_char (hd t)" using space_not_word by blast
    then have "dropWhile is_space_char t = t" using t by (cases t) auto
    then show "ms False ?r t = []"
      using t paren_not_word[of "hd t"] by (cases t) (auto simp add: ms_ws_paren simp del: ms.simps)
  qed
  then show ?thesis using Cons by (simp add: ms_Plus_Seq ms_ws_paren del: ms.simps)
qed

section \<open>The walk up to the root\<close>

lemma dropWhile_shorter:
  assumes "dropWhile P u \<noteq> u"
  shows "length (dropWhile P u) < length u"
proof (cases u)
  case Nil
  then show ?thesis using assms by simp
next
  case (Cons a v)
  then have "P a" using assms by (auto split: if_splits)
  then show ?thesis using Cons length_dropWhile_le[of P v] by simp
qed

lemma path_dirname_Cons:
  assumes "p \<noteq> []"
    and "r = dropWhile (\<lambda>c. c \<noteq> CHR ''/'') (dropWhile (\<lambda>c. c = CHR ''/'') (rev (tl p)))"
  shows "path_dirname p =
          (if r = [] then (if hd p = CHR ''/'' then ''/'' else ''.'')
           else if hd p = CHR ''/'' \<and> length r = 1 then ''//''
           else hd p # rev (tl r))"
  using assms(1) unfolding path_dirname_def Let_def assms(2) by (rule if_not_P)

lemma path_dirname_nonempty: "path_dirname p \<noteq> []"
proof (cases "p = []")
  case True
  then show ?thesis by (simp add: path_dirname_def)
next
  case False
  define r where "r = dropWhile (\<lambda>c. c \<noteq> CHR ''/'') (dropWhile (\<lambda>c. c = CHR ''/'') (rev (tl p)))"
  from path_dirname_Cons[OF False r_def] show ?thesis
    by (simp only: split: if_splits) simp_all
qed

lemma path_dirname_relative:
  assumes "\<not> isAbsolute p"
  shows "\<not> isAbsolute (path_dirname p)"
proof (cases "p = []")
  case True
  then show ?thesis by (simp add: path_dirname_def isAbsolute_def)
next
  case False
  then have h: "hd p \<noteq> CHR ''/''" using assms by (simp add: isAbsolute_def)
  define r where "r = dropWhile (\<lambda>c. c \<noteq> CHR ''/'') (dropWhile (\<lambda>c. c = CHR ''/'') (rev (tl p)))"
  have "path_dirname p =
          (if r = [] then (if hd p = CHR ''/'' then ''/'' else ''.'')
           else if hd p = CHR ''/'' \<and> length r = 1 then ''//''
           else hd p # rev (tl r))"
    by (rule path_dirname_Cons[OF False r_def])
  then have d: "path_dirname p = (if r = [] then ''.'' else hd p # rev (tl r))"
    using h by (simp only: if_False simp_thms)
  show ?thesis
  proof (cases "r = []")
    case True
    then have "path_dirname p = ''.''" using d by (simp only: if_True simp_thms)
    then show ?thesis by (simp add: isAbsolute_def)
  next
    case r: False
    then have "path_dirname p = hd p # rev (tl r)" using d by (simp only: if_False simp_thms)
    then show ?thesis using h by (simp add: isAbsolute_def)
  qed
qed

lemma path_dirname_absolute:
  assumes "isAbsolute p" "p \<noteq> ''/''"
  shows "isAbsolute (path_dirname p)" "length (path_dirname p) < length p"
proof -
  have pn: "p \<noteq> []" and hp: "hd p = CHR ''/''"
    using assms(1) by (simp_all add: isAbsolute_def)
  define t where "t = tl p"
  have p: "p = CHR ''/'' # t" using pn hp t_def by (cases p) simp_all
  have tn: "t \<noteq> []" using assms(2) p by auto
  define u where "u = dropWhile (\<lambda>c. c = CHR ''/'') (rev t)"
  define r where "r = dropWhile (\<lambda>c. c \<noteq> CHR ''/'') u"
  have ul: "length u \<le> length t"
    using length_dropWhile_le[of "\<lambda>c. c = CHR ''/''" "rev t"] by (simp add: u_def)
  have rl: "length r \<le> length u"
    using length_dropWhile_le[of "\<lambda>c. c \<noteq> CHR ''/''" u] by (simp add: r_def)
  have "path_dirname p =
          (if r = [] then (if hd p = CHR ''/'' then ''/'' else ''.'')
           else if hd p = CHR ''/'' \<and> length r = 1 then ''//''
           else hd p # rev (tl r))"
    by (rule path_dirname_Cons[OF pn]) (simp add: r_def u_def t_def)
  then have d: "path_dirname p =
      (if r = [] then ''/'' else if length r = 1 then ''//'' else CHR ''/'' # rev (tl r))"
    by (simp only: hp if_True simp_thms)
  show "isAbsolute (path_dirname p)"
    unfolding d isAbsolute_def by (simp only: split: if_splits) simp_all
  have two: "2 \<le> length t" if l: "length r = 1"
  proof -
    have rn: "r \<noteq> []" using l by auto
    have hr: "hd r = CHR ''/''"
      using hd_dropWhile[of "\<lambda>c. c \<noteq> CHR ''/''" u] rn r_def by simp
    have un: "u \<noteq> []" using rn r_def by auto
    have hu: "hd u \<noteq> CHR ''/''"
      using hd_dropWhile[of "\<lambda>c. c = CHR ''/''" "rev t"] un u_def by simp
    have "r \<noteq> u" using hr hu by auto
    then have "length r < length u"
      using dropWhile_shorter[of "\<lambda>c. c \<noteq> CHR ''/''" u] r_def by simp
    then show "2 \<le> length t" using l ul by simp
  qed
  have lp: "length p = Suc (length t)" using p by simp
  show "length (path_dirname p) < length p"
  proof (cases "r = []")
    case True
    then have "path_dirname p = ''/''" using d by (simp only: if_True simp_thms)
    then show ?thesis using lp tn by (cases t) simp_all
  next
    case False
    show ?thesis
    proof (cases "length r = 1")
      case True
      then have "path_dirname p = ''//''" using d False by (simp only: if_True if_False simp_thms)
      then show ?thesis using lp two[OF True] by simp
    next
      case l: False
      have "path_dirname p = CHR ''/'' # rev (tl r)" using d False l by (simp only: if_False simp_thms)
      moreover have "length (CHR ''/'' # rev (tl r)) = length r" using False by (cases r) simp_all
      ultimately show ?thesis using lp rl ul by simp
    qed
  qed
qed


lemma gitignore_walk_absolute:
  "isAbsolute p \<Longrightarrow> \<exists>files. gitignore_walk e p acc = Some files"
proof (induction p arbitrary: acc rule: length_induct)
  case (1 p)
  have r: "path_parse_root p = ''/''" using "1.prems" by (simp add: path_parse_root_def)
  show ?case
  proof (cases "p = ''/''")
    case True
    then show ?thesis
      using r by (subst gitignore_walk.simps) simp
  next
    case False
    from path_dirname_absolute[OF "1.prems" False] "1.IH"
    have "\<exists>files. gitignore_walk e (path_dirname p) acc' = Some files" for acc'
      by blast
    then show ?thesis
      using False r by (subst gitignore_walk.simps) (simp add: Let_def)
  qed
qed

lemma gitignore_walk_Some_absolute:
  "gitignore_walk e p acc = Some files \<Longrightarrow> p = [] \<or> isAbsolute p"
proof (induction arbitrary: files rule: gitignore_walk.raw_induct[rotated 1, consumes 1])
  case (1 walk e p acc files)
  show ?case
  proof (cases "p \<noteq> path_parse_root p")
    case True
    then have "walk e (path_dirname p)
        (if existsSync e (path_join p ''.gitignore'') then acc @ [path_join p ''.gitignore''] else acc)
          = Some files"
      using 1(2) by (simp add: Let_def)
    from 1(1)[OF this] have "isAbsolute (path_dirname p)"
      using path_dirname_nonempty[of p] by simp
    then show ?thesis using path_dirname_relative[of p] by blast
  next
    case False
    then show ?thesis by (auto simp: path_parse_root_def split: if_splits)
  qed
qed

lemma gitignore_walk_relative:
  "p \<noteq> [] \<Longrightarrow> \<not> isAbsolute p \<Longrightarrow> gitignore_walk e p acc = None"
  using gitignore_walk_Some_absolute[of e p acc] by (cases "gitignore_walk e p acc") auto

lemma gitignore_walk_empty: "gitignore_walk e [] acc = Some acc"
  by (subst gitignore_walk.simps) (simp add: path_parse_root_def isAbsolute_def)

lemma loadGitignore_returns: "loadGitignore e d \<noteq> None \<longleftrightarrow> d = [] \<or> isAbsolute d"
proof (cases "d = [] \<or> isAbsolute d")
  case True
  then obtain files where "gitignore_walk e d [] = Some files"
    using gitignore_walk_absolute[of d e "[]"] gitignore_walk_empty[of e "[]"] by auto
  then show ?thesis using True by (simp add: loadGitignore_def)
next
  case False
  then have "gitignore_walk e d [] = None"
    using gitignore_walk_relative[of d e "[]"] by simp
  then show ?thesis using False by (simp add: loadGitignore_def)
qed

lemma getSourceFiles_returns: "getSourceFiles e d exts \<noteq> None \<longleftrightarrow> d = [] \<or> isAbsolute d"
  using loadGitignore_returns[of e d]
  by (auto simp: getSourceFiles_def split: option.splits)

section \<open>Discovery and the build\<close>

lemma path_normalize_absolute: "isAbsolute p \<Longrightarrow> isAbsolute (path_normalize p)"
  by (simp add: path_normalize_def isAbsolute_def Let_def)

lemma path_join_absolute: "isAbsolute a \<Longrightarrow> isAbsolute (path_join a b)"
proof -
  assume a: "isAbsolute a"
  then have "isAbsolute (a @ ''/'' @ b)" by (cases a) (simp_all add: isAbsolute_def)
  then show ?thesis
    using a path_normalize_absolute by (auto simp: path_join_def isAbsolute_def)
qed

lemma subdirs_absolute:
  "isAbsolute d \<Longrightarrow> subdirs_of e d = Some subdirs \<Longrightarrow> \<forall>s \<in> set subdirs. isAbsolute s"
  by (auto simp: subdirs_of_def path_join_absolute split: option.splits)

lemma subdir_files_returns:
  "\<forall>s \<in> set subdirs. isAbsolute s \<Longrightarrow> \<exists>all. subdir_files e exts acc subdirs = Some all"
proof (induction subdirs arbitrary: acc)
  case Nil
  then show ?case by simp
next
  case (Cons s subdirs)
  then have "getSourceFiles e s exts \<noteq> None" using getSourceFiles_returns[of e s exts] by simp
  then obtain r where r: "getSourceFiles e s exts = Some r" by auto
  show ?case
  proof (cases r)
    case (Inl err)
    then show ?thesis using r Cons by simp
  next
    case (Inr fs)
    then show ?thesis using r Cons by simp
  qed
qed

lemma find_files_returns: "isAbsolute d \<Longrightarrow> \<exists>r. find_files e d exts = Some r"
proof -
  assume a: "isAbsolute d"
  then have "getSourceFiles e d exts \<noteq> None" using getSourceFiles_returns[of e d exts] by simp
  then obtain r where r: "getSourceFiles e d exts = Some r" by auto
  show ?thesis
  proof (cases r)
    case (Inl err)
    then show ?thesis using r by (simp add: find_files_def)
  next
    case (Inr files)
    show ?thesis
    proof (cases "files = []")
      case False
      then show ?thesis using r Inr by (simp add: find_files_def)
    next
      case True
      show ?thesis
      proof (cases "subdirs_of e d")
        case None
        then show ?thesis using r Inr True by (simp add: find_files_def)
      next
        case (Some subdirs)
        from subdir_files_returns[OF subdirs_absolute[OF a Some]]
        obtain all where "subdir_files e exts [] subdirs = Some all" by blast
        then show ?thesis using r Inr True Some by (simp add: find_files_def)
      qed
    qed
  qed
qed

lemma find_files_diverges: "d \<noteq> [] \<Longrightarrow> \<not> isAbsolute d \<Longrightarrow> find_files e d exts = None"
  using getSourceFiles_returns[of e d exts] by (simp add: find_files_def)

lemma createIndex_returns: "isAbsolute d \<Longrightarrow> \<exists>r st'. createIndex e st d exts = Some (r, st')"
proof -
  assume "isAbsolute d"
  then obtain r where "find_files e d exts = Some r" using find_files_returns by blast
  then show ?thesis by (cases r) (simp_all add: createIndex_def Let_def)
qed

lemma createIndex_diverges: "d \<noteq> [] \<Longrightarrow> \<not> isAbsolute d \<Longrightarrow> createIndex e st d exts = None"
  using find_files_diverges[of d e exts] by (simp add: createIndex_def Let_def)

lemma search_diverges:
  "d \<noteq> [] \<Longrightarrow> \<not> isAbsolute d \<Longrightarrow> directoryIndices st (getNormalizedDirectory e d) = None
     \<Longrightarrow> search e st q d = None"
  using createIndex_diverges[of d e st] by (simp add: search_def Let_def)

lemma createIndex_Inl:
  "createIndex e st d exts = Some (Inl err, st') \<Longrightarrow> st' = st \<and> find_files e d exts = Some (Inl err)"
  by (auto simp: createIndex_def Let_def split: option.splits sum.splits)

lemma createIndex_Inr:
  "createIndex e st d exts = Some (Inr u, st') \<Longrightarrow>
     \<exists>files. find_files e d exts = Some (Inr files)
       \<and> st' = st\<lparr>indexedExtensions := (indexedExtensions st)
                      (getNormalizedDirectory e d \<mapsto>
                         (case exts of None \<Rightarrow> defaultExtensions | Some xs \<Rightarrow> xs)),
                   directoryIndices := (directoryIndices st)
                      (getNormalizedDirectory e d \<mapsto> foldl (index_file e) [] files)\<rparr>"
  by (auto simp: createIndex_def Let_def split: option.splits sum.splits)

lemma filter_ignored_subset:
  "filter_ignored e ig a matches = Inr fs \<Longrightarrow> set fs \<subseteq> set matches"
  by (induction matches arbitrary: fs) (auto split: option.splits sum.splits if_splits)

lemma getSourceFiles_no_tests:
  "getSourceFiles e d exts = Some (Inr fs) \<Longrightarrow> \<forall>f \<in> set fs. \<not> isTestFile f"
  by (auto simp: getSourceFiles_def split: option.splits sum.splits)

lemma subdir_files_no_tests:
  "subdir_files e exts acc subdirs = Some all \<Longrightarrow> \<forall>f \<in> set acc. \<not> isTestFile f
     \<Longrightarrow> \<forall>f \<in> set all. \<not> isTestFile f"
proof (induction subdirs arbitrary: acc)
  case Nil
  then show ?case by simp
next
  case (Cons s subdirs)
  show ?case
  proof (cases "getSourceFiles e s exts")
    case None
    then show ?thesis using Cons.prems by simp
  next
    case (Some r)
    show ?thesis
    proof (cases r)
      case (Inl err)
      then show ?thesis using Some Cons by simp
    next
      case (Inr fs)
      then have "\<forall>f \<in> set (acc @ fs). \<not> isTestFile f"
        using Some getSourceFiles_no_tests[of e s exts fs] Cons.prems(2) by auto
      then show ?thesis using Some Inr Cons.IH[of "acc @ fs"] Cons.prems(1) by simp
    qed
  qed
qed

lemma find_files_no_tests:
  assumes "find_files e d exts = Some (Inr fs)"
  shows "\<forall>f \<in> set fs. \<not> isTestFile f"
proof (cases "getSourceFiles e d exts")
  case None
  then show ?thesis using assms by (simp add: find_files_def)
next
  case (Some r)
  show ?thesis
  proof (cases r)
    case (Inl err)
    then show ?thesis using Some assms by (simp add: find_files_def)
  next
    case (Inr files)
    show ?thesis
    proof (cases "files = []")
      case False
      then show ?thesis
        using Some Inr assms getSourceFiles_no_tests[of e d exts files]
        by (simp add: find_files_def)
    next
      case True
      then obtain subdirs all where "subdir_files e exts [] subdirs = Some all" "fs = all"
        using Some Inr assms by (auto simp: find_files_def split: option.splits if_splits)
      then show ?thesis using subdir_files_no_tests[of e exts "[]" subdirs all] by simp
    qed
  qed
qed

lemma index_files_subset:
  "m_file ` set (foldl (index_file e) acc fs) \<subseteq> m_file ` set acc \<union> set fs"
proof (induction fs arbitrary: acc)
  case Nil
  then show ?case by simp
next
  case (Cons f fs)
  have "m_file ` set (index_file e acc f) \<subseteq> m_file ` set acc \<union> {f}"
    by (auto simp: index_file_def split: option.splits)
  then show ?case using Cons.IH[of "index_file e acc f"] by (simp add: subset_iff) blast
qed

section \<open>The keys of the two maps\<close>

lemma search_state:
  assumes "search e st q d = Some (r, st')"
  shows "st' = st \<or> (\<exists>u exts. createIndex e st d exts = Some (Inr u, st'))"
proof (cases "directoryIndices st (getNormalizedDirectory e d) = None")
  case False
  then show ?thesis using assms by (auto simp: search_present)
next
  case True
  define built where "built = createIndex e st d
      (Some (case indexedExtensions st (getNormalizedDirectory e d) of
               None \<Rightarrow> defaultExtensions | Some exts \<Rightarrow> exts))"
  have s: "search e st q d =
      (case built of None \<Rightarrow> None | Some (Inl err, st1) \<Rightarrow> Some (Inl err, st1)
       | Some (Inr u, st1) \<Rightarrow> Some (ranked_results e st1 q d, st1))"
    using True by (simp add: search_def Let_def built_def)
  show ?thesis
  proof (cases built)
    case None
    then show ?thesis using assms s by simp
  next
    case (Some b)
    obtain res st1 where b: "b = (res, st1)" by (cases b)
    show ?thesis
    proof (cases res)
      case (Inl err)
      then have "st1 = st" using Some b createIndex_Inl[of e st d _ err st1] by (simp add: built_def)
      then show ?thesis using assms s Some b Inl by simp
    next
      case (Inr u)
      then have "st' = st1" using assms s Some b by simp
      then show ?thesis using Some b Inr built_def by auto
    qed
  qed
qed

lemma getRelevantFiles_state:
  "getRelevantFiles e st q d = Some (r, st') \<Longrightarrow> \<exists>r'. search e st q d = Some (r', st')"
  by (auto simp: getRelevantFiles_def split: option.splits sum.splits prod.splits)

lemma createIndex_keys:
  assumes "dom (directoryIndices st) = dom (indexedExtensions st)"
    and "createIndex e st d exts = Some (r, st')"
  shows "dom (directoryIndices st') = dom (indexedExtensions st')"
proof (cases r)
  case (Inl err)
  then show ?thesis using assms createIndex_Inl[of e st d exts err st'] by simp
next
  case (Inr u)
  then obtain files where "st' = st\<lparr>indexedExtensions := (indexedExtensions st)
                      (getNormalizedDirectory e d \<mapsto>
                         (case exts of None \<Rightarrow> defaultExtensions | Some xs \<Rightarrow> xs)),
                   directoryIndices := (directoryIndices st)
                      (getNormalizedDirectory e d \<mapsto> foldl (index_file e) [] files)\<rparr>"
    using assms(2) createIndex_Inr[of e st d exts u st'] by blast
  then show ?thesis using assms(1) by simp
qed

lemma reachable_keys: "reachable st \<Longrightarrow> dom (directoryIndices st) = dom (indexedExtensions st)"
proof (induction rule: reachable.induct)
  case init
  then show ?case by (simp add: new_engine_def)
next
  case (create st e directory extensions r st')
  then show ?case using createIndex_keys by blast
next
  case (search st e query directory rs st')
  then show ?case using search_state[of e st query directory rs st'] createIndex_keys by blast
next
  case (files st e query directory fs st')
  then obtain r' where "search e st query directory = Some (r', st')"
    using getRelevantFiles_state by blast
  then show ?case using files.IH search_state[of e st query directory r' st'] createIndex_keys by blast
qed

lemma demo_state_reachable: "reachable demo_state"
proof -
  have "isAbsolute ''/proj/src''" by (simp add: isAbsolute_def)
  then obtain r st' where c: "createIndex demo_env new_engine ''/proj/src'' (Some [''.ts'']) = Some (r, st')"
    using createIndex_returns by blast
  then have "demo_state = st'" by (simp add: demo_state_def)
  then show ?thesis using reachable.create[OF reachable.init c] by simp
qed

text \<open>
  Claim C10.  In every state an engine can reach by its operations, the map of indices
  and the map of remembered extensions have the same keys.  So when \<open>search\<close> finds no
  index for the directory, no extension list is remembered for it either, and the build
  it triggers is the one with the default extensions.
\<close>

theorem extension_keys_invariant:
  assumes "reachable st"
  shows "dom (directoryIndices st) = dom (indexedExtensions st)
    \<and> (directoryIndices st (getNormalizedDirectory e directory) = None \<longrightarrow>
         indexedExtensions st (getNormalizedDirectory e directory) = None
         \<and> search e st query directory =
             (case createIndex e st directory (Some defaultExtensions) of
                None \<Rightarrow> None
              | Some (Inl err, st') \<Rightarrow> Some (Inl err, st')
              | Some (Inr u, st') \<Rightarrow> Some (ranked_results e st' query directory, st')))"
proof (intro conjI impI)
  show k: "dom (directoryIndices st) = dom (indexedExtensions st)"
    using reachable_keys[OF assms] .
  assume n: "directoryIndices st (getNormalizedDirectory e directory) = None"
  then show x: "indexedExtensions st (getNormalizedDirectory e directory) = None"
    using k by (metis domIff)
  show "search e st query directory =
             (case createIndex e st directory (Some defaultExtensions) of
                None \<Rightarrow> None
              | Some (Inl err, st') \<Rightarrow> Some (Inl err, st')
              | Some (Inr u, st') \<Rightarrow> Some (ranked_results e st' query directory, st'))"
    using n x by (simp add: search_def Let_def)
qed

text \<open>
  The theorem at the engine that has indexed \<open>/proj/src\<close> with the extension \<open>.ts\<close>,
  for the directory \<open>/proj/lib\<close>, which it has not indexed.
\<close>

theorem extension_keys_invariant_witness:
  "dom (directoryIndices demo_state) = dom (indexedExtensions demo_state)
     \<and> indexedExtensions demo_state ''/proj/lib/'' = None
     \<and> indexedExtensions demo_state ''/proj/src/'' = Some [''.ts'']"
proof -
  have n: "getNormalizedDirectory demo_env ''/proj/lib'' = ''/proj/lib/''"
    by code_simp
  have a: "directoryIndices demo_state ''/proj/lib/'' = None"
    by code_simp
  have b: "indexedExtensions demo_state ''/proj/src/'' = Some [''.ts'']"
    by code_simp
  from extension_keys_invariant[OF demo_state_reachable, of demo_env "''/proj/lib''"] n a b
  show ?thesis by simp
qed

section \<open>Test files\<close>

lemma includes_toLowerCase:
  "str_includes s p \<Longrightarrow> str_includes (toLowerCase s) (toLowerCase p)"
proof -
  assume "str_includes s p"
  then obtain a b where "s = a @ p @ b" using str_includes_iff by blast
  then have "toLowerCase s = toLowerCase a @ toLowerCase p @ toLowerCase b"
    by (simp add: toLowerCase_def)
  then show ?thesis using str_includes_iff by blast
qed

lemma split_acc_substring:
  "t \<in> set (split_acc c acc s) \<Longrightarrow> \<exists>a b. rev acc @ s = a @ t @ b"
proof (induction s arbitrary: acc)
  case Nil
  then have "rev acc @ [] = [] @ t @ []" by simp
  then show ?case by blast
next
  case (Cons x xs)
  show ?case
  proof (cases "x = c")
    case True
    then consider "t = rev acc" | "t \<in> set (split_acc c [] xs)" using Cons.prems by auto
    then show ?thesis
    proof cases
      case 1
      then have "rev acc @ x # xs = [] @ t @ (x # xs)" by simp
      then show ?thesis by blast
    next
      case 2
      then obtain a b where "xs = a @ t @ b" using Cons.IH[of "[]"] by auto
      then have "rev acc @ x # xs = (rev acc @ x # a) @ t @ b" by simp
      then show ?thesis by blast
    qed
  next
    case False
    then have "t \<in> set (split_acc c (x # acc) xs)" using Cons.prems by simp
    then obtain a b where "rev (x # acc) @ xs = a @ t @ b" using Cons.IH by blast
    then have "rev acc @ x # xs = a @ t @ b" by simp
    then show ?thesis by blast
  qed
qed

lemma segment_included: "t \<in> set (split_char c s) \<Longrightarrow> str_includes s t"
  using split_acc_substring[of t c "[]" s] by (simp add: split_char_def str_includes_iff)

lemma lower_patterns: "toLowerCase ''.spec.'' = ''.spec.''" "toLowerCase ''.test.'' = ''.test.''"
  by code_simp+

lemma is_test_path_isTestFile: "is_test_path f \<Longrightarrow> isTestFile f"
  unfolding is_test_path_def isTestFile_def Let_def
  using includes_toLowerCase[of "path_basename f" "''.spec.''"]
    includes_toLowerCase[of "path_basename f" "''.test.''"]
    segment_included[of "''__tests__''" "CHR ''/''" f]
  by (auto simp only: lower_patterns)

lemma createIndex_no_tests:
  assumes "\<forall>k md. directoryIndices st k = Some md \<longrightarrow> (\<forall>item \<in> set md. \<not> isTestFile (m_file item))"
    and "createIndex e st d exts = Some (r, st')"
  shows "\<forall>k md. directoryIndices st' k = Some md \<longrightarrow> (\<forall>item \<in> set md. \<not> isTestFile (m_file item))"
proof (cases r)
  case (Inl err)
  then show ?thesis using assms createIndex_Inl[of e st d exts err st'] by simp
next
  case (Inr u)
  then obtain files where f: "find_files e d exts = Some (Inr files)"
    and s: "st' = st\<lparr>indexedExtensions := (indexedExtensions st)
                      (getNormalizedDirectory e d \<mapsto>
                         (case exts of None \<Rightarrow> defaultExtensions | Some xs \<Rightarrow> xs)),
                   directoryIndices := (directoryIndices st)
                      (getNormalizedDirectory e d \<mapsto> foldl (index_file e) [] files)\<rparr>"
    using assms(2) createIndex_Inr[of e st d exts u st'] by blast
  have new: "\<forall>item \<in> set (foldl (index_file e) [] files). \<not> isTestFile (m_file item)"
    using index_files_subset[of e "[]" files] find_files_no_tests[OF f] by auto
  show ?thesis
  proof (intro allI impI)
    fix k md assume "directoryIndices st' k = Some md"
    then have "md = foldl (index_file e) [] files \<or> directoryIndices st k = Some md"
      using s by (auto split: if_splits)
    then show "\<forall>item \<in> set md. \<not> isTestFile (m_file item)" using new assms(1) by blast
  qed
qed

lemma reachable_no_tests:
  "reachable st \<Longrightarrow>
   \<forall>k md. directoryIndices st k = Some md \<longrightarrow> (\<forall>item \<in> set md. \<not> isTestFile (m_file item))"
proof (induction rule: reachable.induct)
  case init
  then show ?case by (simp add: new_engine_def)
next
  case (create st e directory extensions r st')
  then show ?case using createIndex_no_tests by blast
next
  case (search st e query directory rs st')
  then show ?case using search_state[of e st query directory rs st'] createIndex_no_tests by blast
next
  case (files st e query directory fs st')
  then obtain r' where "search e st query directory = Some (r', st')"
    using getRelevantFiles_state by blast
  then show ?case using files.IH search_state[of e st query directory r' st'] createIndex_no_tests by blast
qed

lemma update_keys_subset: "fst ` set (AList.update k v al) \<subseteq> insert k (fst ` set al)"
  by (induction al) auto

lemma prebuilt_files:
  "fst ` set (foldl (prebuilt_item toks) acc md) \<subseteq> fst ` set acc \<union> m_file ` set md"
proof (induction md arbitrary: acc)
  case Nil
  then show ?case by simp
next
  case (Cons x xs)
  have "fst ` set (prebuilt_item toks acc x) \<subseteq> fst ` set acc \<union> {m_file x}"
    using update_keys_subset[of "m_file x" _ acc] by (auto simp: prebuilt_item_def Let_def)
  then show ?case using Cons.IH[of "prebuilt_item toks acc x"] by (simp add: subset_iff) blast
qed

lemma fallback_files:
  "fallback_items toks acc md = Inr scores \<Longrightarrow> fst ` set scores \<subseteq> fst ` set acc \<union> m_file ` set md"
proof (induction md arbitrary: acc)
  case Nil
  then show ?case by auto
next
  case (Cons x xs)
  from Cons.prems obtain sc where
    rest: "fallback_items toks (if 0 < sc then AList.update (m_file x) sc acc else acc) xs = Inr scores"
    by (auto split: sum.splits)
  have "fst ` set (if 0 < sc then AList.update (m_file x) sc acc else acc) \<subseteq> fst ` set acc \<union> {m_file x}"
    using update_keys_subset[of "m_file x" sc acc] by auto
  then show ?case using Cons.IH[OF rest] by (simp add: subset_iff) blast
qed

lemma keywordSearch_files:
  assumes "keywordSearch e st q d = Inr scores"
  shows "fst ` set scores \<subseteq> m_file ` set (getMetadataForDirectory e st d)"
proof (cases "queryKeywords_of q = []")
  case True
  then show ?thesis using assms by (simp add: keywordSearch_def)
next
  case False
  show ?thesis
  proof (cases "hasKeywordIndices (getMetadataForDirectory e st d)")
    case True
    then have "scores = foldl (prebuilt_item (queryKeywords_of q)) [] (getMetadataForDirectory e st d)"
      using assms False by (simp add: keywordSearch_def Let_def)
    then show ?thesis using prebuilt_files[of "queryKeywords_of q" "[]"] by simp
  next
    case nf: False
    then have "fallback_items (queryKeywords_of q) [] (getMetadataForDirectory e st d) = Inr scores"
      using assms False by (simp add: keywordSearch_def Let_def)
    from fallback_files[OF this] show ?thesis by simp
  qed
qed

lemma ranked_results_files:
  assumes "ranked_results e st q d = Inr rs"
  shows "r_file ` set rs \<subseteq> m_file ` set (getMetadataForDirectory e st d)"
proof -
  from ranked_results_D[OF assms] obtain scores srs where
    ks: "keywordSearch e st q d = Inr scores"
    and sr: "scored_results (getMetadataForDirectory e st d) scores = Inr srs"
    and rs: "rs = with_ranks (sort_by by_score srs)"
    by blast
  have "map r_file rs = map r_file (sort_by by_score srs)"
    unfolding rs by (rule with_ranks_map) simp
  then have "r_file ` set rs = r_file ` set (sort_by by_score srs)"
    by (metis set_map)
  also have "\<dots> = r_file ` set srs"
    by (metis mset_sort_by set_mset_mset)
  also have "\<dots> = fst ` set scores"
  proof -
    have "map fst (map (\<lambda>r. (r_file r, similarityScore r)) srs) = map fst scores"
      using scored_results_entries[OF sr] by simp
    then have "map r_file srs = map fst scores" by (simp add: comp_def)
    then show ?thesis by (metis set_map)
  qed
  finally show ?thesis using keywordSearch_files[OF ks] by simp
qed

text \<open>
  Claim C9.  In every state an engine can reach, no index holds a test file: a file whose
  basename contains \<open>.spec.\<close> or \<open>.test.\<close>, or whose path has a segment \<open>__tests__\<close>.
  Whatever the query, the file system, the ignore rules and the contents of the files,
  neither \<open>search\<close> nor \<open>getRelevantFiles\<close> returns such a file.
\<close>

theorem no_test_files:
  assumes "reachable st"
  shows "(\<forall>k md. directoryIndices st k = Some md \<longrightarrow>
            (\<forall>item \<in> set md. \<not> is_test_path (m_file item)))
    \<and> (\<forall>rs st'. search e st query directory = Some (Inr rs, st') \<longrightarrow>
            (\<forall>r \<in> set rs. \<not> is_test_path (r_file r)))
    \<and> (\<forall>fs st'. getRelevantFiles e st query directory = Some (Inr fs, st') \<longrightarrow>
            (\<forall>f \<in> set fs. \<not> is_test_path f))"
proof -
  have idx: "\<not> is_test_path (m_file item)"
    if "reachable s" "directoryIndices s k = Some md" "item \<in> set md" for s k md item
    using reachable_no_tests[OF that(1)] that(2,3) is_test_path_isTestFile by blast
  have res: "\<not> is_test_path (r_file r)"
    if s: "search e st query directory = Some (Inr rs, st')" and r: "r \<in> set rs" for rs st' r
  proof -
    have reach: "reachable st'" using reachable.search[OF assms s] .
    from search_Inr_D[OF s] have rr: "ranked_results e st' query directory = Inr rs" by blast
    from ranked_results_files[OF rr] r obtain item where
      item: "item \<in> set (getMetadataForDirectory e st' directory)" "m_file item = r_file r"
      by (auto simp: image_iff subset_iff)
    then obtain md where "directoryIndices st' (getNormalizedDirectory e directory) = Some md"
      "item \<in> set md"
      by (cases "directoryIndices st' (getNormalizedDirectory e directory)")
         (simp_all add: getMetadataForDirectory_def)
    then show ?thesis using idx[OF reach] item(2) by metis
  qed
  have fls: "\<not> is_test_path f"
    if g: "getRelevantFiles e st query directory = Some (Inr fs, st')" and f: "f \<in> set fs"
    for fs st' f
  proof -
    from g obtain rs where s: "search e st query directory = Some (Inr rs, st')"
      and fs: "fs = map r_file rs"
      by (auto simp: getRelevantFiles_def split: option.splits sum.splits prod.splits)
    then obtain r where "r \<in> set rs" "f = r_file r" using f by auto
    then show ?thesis using res[OF s] by simp
  qed
  show ?thesis using idx[OF assms] res fls by blast
qed

text \<open>
  The theorem at the example project, where \<open>add.test.ts\<close> has the same text as
  \<open>A.ts\<close>: the search for \<open>add\<close> returns \<open>A.ts\<close> alone.
\<close>

theorem no_test_files_witness:
  "map_option fst (search demo_env new_engine ''add'' ''/proj/src'') = Some (Inr demo_results)
     \<and> is_test_path ''/proj/src/add.test.ts''
     \<and> readFileSync demo_env ''/proj/src/add.test.ts'' = readFileSync demo_env ''/proj/src/A.ts''
     \<and> \<not> list_ex (\<lambda>r. is_test_path (r_file r)) demo_results"
proof -
  have ev: "map_option fst (search demo_env new_engine ''add'' ''/proj/src'') = Some (Inr demo_results)"
    by code_simp
  then obtain st' where s: "search demo_env new_engine ''add'' ''/proj/src'' = Some (Inr demo_results, st')"
    by (cases "search demo_env new_engine ''add'' ''/proj/src''") auto
  have t: "is_test_path ''/proj/src/add.test.ts''" by code_simp
  have c: "readFileSync demo_env ''/proj/src/add.test.ts'' = readFileSync demo_env ''/proj/src/A.ts''"
    by code_simp
  from no_test_files[OF reachable.init, of demo_env "''add''" "''/proj/src''"] s
  have "\<forall>r \<in> set demo_results. \<not> is_test_path (r_file r)" by blast
  then have "\<not> list_ex (\<lambda>r. is_test_path (r_file r)) demo_results"
    by (simp add: list_ex_iff)
  then show ?thesis using ev t c by simp
qed

section \<open>Failures of the build\<close>

lemma subdir_files_Some:
  "subdir_files e exts acc subdirs = Some all \<longleftrightarrow>
     (\<forall>s \<in> set subdirs. getSourceFiles e s exts \<noteq> None)
     \<and> all = acc @ concat (map (found_in e exts) subdirs)"
proof (induction subdirs arbitrary: acc)
  case Nil
  then show ?case by auto
next
  case (Cons s subdirs)
  show ?case
  proof (cases "getSourceFiles e s exts")
    case None
    then show ?thesis by simp
  next
    case (Some r)
    show ?thesis
    proof (cases r)
      case (Inl err)
      then show ?thesis using Some Cons.IH[of acc] by (simp add: found_in_def)
    next
      case (Inr fs)
      then show ?thesis using Some Cons.IH[of "acc @ fs"] by (simp add: found_in_def)
    qed
  qed
qed

lemma collect_files_error:
  "collect_files e ig a d files exts = Inl err \<Longrightarrow> err = LibraryError"
proof (induction exts arbitrary: files)
  case Nil
  then show ?case by simp
next
  case (Cons x xs)
  have fi: "filter_ignored e ig a matches = Inl er \<Longrightarrow> er = LibraryError" for matches er
    by (induction matches) (auto split: option.splits sum.splits)
  show ?case
  proof (cases "glob e (d @ ''/**/*'' @ x)")
    case None
    then show ?thesis using Cons.prems by simp
  next
    case (Some matches)
    show ?thesis
    proof (cases "filter_ignored e ig a matches")
      case (Inl er)
      then show ?thesis using Cons.prems Some fi by simp
    next
      case (Inr fm)
      then show ?thesis using Cons.prems Some Cons.IH[of "files @ fm"] by simp
    qed
  qed
qed

lemma getSourceFiles_error:
  "getSourceFiles e d exts = Some (Inl err) \<Longrightarrow> err = LibraryError"
  using collect_files_error
  by (auto simp: getSourceFiles_def split: option.splits sum.splits)

lemma find_files_NoFilesFound:
  "find_files e d exts = Some (Inl (NoFilesFound d exts)) \<longleftrightarrow>
     getSourceFiles e d exts = Some (Inr [])
     \<and> (subdirs_of e d = None
        \<or> (\<exists>subdirs. subdirs_of e d = Some subdirs
              \<and> (\<forall>s \<in> set subdirs. getSourceFiles e s exts \<noteq> None \<and> found_in e exts s = [])))"
proof (cases "getSourceFiles e d exts")
  case None
  then show ?thesis by (simp add: find_files_def)
next
  case (Some r)
  show ?thesis
  proof (cases r)
    case (Inl err)
    then have "err = LibraryError" using Some getSourceFiles_error by blast
    then show ?thesis using Some Inl by (simp add: find_files_def)
  next
    case (Inr files)
    show ?thesis
    proof (cases "files = []")
      case False
      then show ?thesis using Some Inr by (simp add: find_files_def)
    next
      case True
      show ?thesis
      proof (cases "subdirs_of e d")
        case None
        then show ?thesis using Some Inr True by (simp add: find_files_def)
      next
        case sd: (Some subdirs)
        show ?thesis
        proof (cases "subdir_files e exts [] subdirs")
          case None
          then have "\<not> (\<forall>s \<in> set subdirs. getSourceFiles e s exts \<noteq> None)"
            using subdir_files_Some[of e exts "[]" subdirs] by auto
          then show ?thesis using Some Inr True sd None by (auto simp: find_files_def)
        next
          case (Some all)
          then have a: "(\<forall>s \<in> set subdirs. getSourceFiles e s exts \<noteq> None)"
            and b: "all = concat (map (found_in e exts) subdirs)"
            using subdir_files_Some[of e exts "[]" subdirs all] by auto
          have "all = [] \<longleftrightarrow> (\<forall>s \<in> set subdirs. found_in e exts s = [])"
            using b by auto
          then show ?thesis
            using \<open>getSourceFiles e d exts = Some r\<close> Inr True sd Some a
            by (auto simp: find_files_def)
        qed
      qed
    qed
  qed
qed

lemma find_files_error:
  "find_files e d exts = Some (Inl err) \<Longrightarrow> err = NoFilesFound d exts \<or> err = LibraryError"
  using getSourceFiles_error[of e d exts]
  by (auto simp: find_files_def split: option.splits sum.splits if_splits)

lemma find_files_nonempty: "find_files e d exts = Some (Inr files) \<Longrightarrow> files \<noteq> []"
  by (auto simp: find_files_def split: option.splits sum.splits if_splits)

lemma index_files_names:
  "map m_file (foldl (index_file e) acc files) = map m_file acc @ filter (readable e) files"
  by (induction files arbitrary: acc) (auto simp: index_file_def readable_def split: option.splits)

lemma createIndex_NoFilesFound:
  "createIndex e st d exts = Some (Inl (NoFilesFound d exts), st)
     \<longleftrightarrow> find_files e d exts = Some (Inl (NoFilesFound d exts))"
  by (auto simp: createIndex_def Let_def split: option.splits sum.splits)

lemma subdirs_of_items:
  "subdirs_of e d =
     map_option (\<lambda>items. map (path_join d)
                   (filter (\<lambda>item. statSync_isDirectory e (path_join d item) = Some True) items))
       (readdirSync e d)"
  by (simp add: subdirs_of_def split: option.splits)

lemma find_files_NoFilesFound_items:
  "find_files e d exts = Some (Inl (NoFilesFound d exts)) \<longleftrightarrow>
     getSourceFiles e d exts = Some (Inr [])
     \<and> (readdirSync e d = None
        \<or> (\<exists>items. readdirSync e d = Some items
              \<and> (\<forall>item \<in> set items. statSync_isDirectory e (path_join d item) = Some True \<longrightarrow>
                     getSourceFiles e (path_join d item) exts \<noteq> None
                     \<and> found_in e exts (path_join d item) = [])))"
proof (cases "readdirSync e d")
  case None
  then show ?thesis by (simp add: find_files_NoFilesFound subdirs_of_items)
next
  case (Some items)
  then show ?thesis by (auto simp: find_files_NoFilesFound subdirs_of_items)
qed

lemma find_files_direct:
  "getSourceFiles e d exts = Some (Inr files) \<Longrightarrow> files \<noteq> [] \<Longrightarrow>
     find_files e d exts = Some (Inr files)"
  by (simp add: find_files_def)

lemma find_files_subdirs:
  assumes g: "getSourceFiles e d exts = Some (Inr [])"
    and r: "readdirSync e d = Some items"
    and ret: "\<forall>item \<in> set items. statSync_isDirectory e (path_join d item) = Some True \<longrightarrow>
                getSourceFiles e (path_join d item) exts \<noteq> None"
    and some: "\<exists>item \<in> set items. statSync_isDirectory e (path_join d item) = Some True
                \<and> found_in e exts (path_join d item) \<noteq> []"
  shows "find_files e d exts =
           Some (Inr (concat (map (\<lambda>item. found_in e exts (path_join d item))
                   (filter (\<lambda>item. statSync_isDirectory e (path_join d item) = Some True) items))))"
proof -
  let ?dirs = "filter (\<lambda>item. statSync_isDirectory e (path_join d item) = Some True) items"
  let ?all = "concat (map (\<lambda>item. found_in e exts (path_join d item)) ?dirs)"
  have sd: "subdirs_of e d = Some (map (path_join d) ?dirs)"
    using r by (simp add: subdirs_of_items)
  have "subdir_files e exts [] (map (path_join d) ?dirs)
          = Some ([] @ concat (map (found_in e exts) (map (path_join d) ?dirs)))"
    unfolding subdir_files_Some using ret by auto
  then have sf: "subdir_files e exts [] (map (path_join d) ?dirs) = Some ?all"
    by (simp add: comp_def)
  have ne: "?all \<noteq> []" using some by auto
  show ?thesis using g sd sf ne by (simp add: find_files_def)
qed

lemma createIndex_found:
  assumes f: "find_files e directory extensions = Some (Inr files)"
  shows "\<exists>st' md. createIndex e st directory extensions = Some (Inr (), st')
          \<and> directoryIndices st' (getNormalizedDirectory e directory) = Some md
          \<and> map m_file md = filter (readable e) files"
proof -
  define st' where "st' = st\<lparr>indexedExtensions := (indexedExtensions st)
                      (getNormalizedDirectory e directory \<mapsto>
                         (case extensions of None \<Rightarrow> defaultExtensions | Some exts \<Rightarrow> exts)),
                   directoryIndices := (directoryIndices st)
                      (getNormalizedDirectory e directory \<mapsto> foldl (index_file e) [] files)\<rparr>"
  have c: "createIndex e st directory extensions = Some (Inr (), st')"
    using f by (simp add: createIndex_def Let_def st'_def)
  have d: "directoryIndices st' (getNormalizedDirectory e directory)
             = Some (foldl (index_file e) [] files)"
    by (simp add: st'_def)
  have m: "map m_file (foldl (index_file e) [] files) = filter (readable e) files"
    by (simp add: index_files_names)
  show ?thesis using c d m by blast
qed

lemma createIndex_error_cases:
  assumes c: "createIndex e st directory extensions = Some (Inl err, st')"
  shows "st' = st
          \<and> (err = NoFilesFound directory extensions
             \<or> (err = LibraryError
                \<and> getSourceFiles e directory extensions = Some (Inl LibraryError)))"
proof -
  from createIndex_Inl[OF c] have s: "st' = st" by simp
  from createIndex_Inl[OF c] have f: "find_files e directory extensions = Some (Inl err)" by simp
  have "err = NoFilesFound directory extensions
          \<or> (err = LibraryError \<and> getSourceFiles e directory extensions = Some (Inl LibraryError))"
  proof (cases "err = NoFilesFound directory extensions")
    case True
    then show ?thesis by simp
  next
    case False
    then have l: "err = LibraryError" using find_files_error[OF f] by simp
    have "getSourceFiles e directory extensions = Some (Inl LibraryError)"
      using f l
      by (auto simp: find_files_def split: option.splits sum.splits if_splits
          dest: getSourceFiles_error)
    then show ?thesis using l by simp
  qed
  then show ?thesis using s by simp
qed

text \<open>
  Claim C6.  \<open>createIndex\<close> fails with \<open>NoFilesFound\<close> exactly when discovery returns no
  file for the directory itself and none for any of its immediate sub-directories: the
  entries of the directory cannot be listed, or for every entry that is a directory
  discovery returns and finds nothing (a failed discovery counting as nothing found).
  An error leaves the engine as it was, and the only other error is that of discovery in
  the directory itself.  When discovery gives files for the directory, or gives none but
  gives files for some immediate sub-directory, the build succeeds whatever happens when
  the files are read: the index holds the readable files, in order (those of the
  sub-directories in the order of the listing), and the unreadable ones are left out.  For
  an absolute directory the call returns.
\<close>

theorem createIndex_NoFilesFound_iff:
  "(createIndex e st directory extensions = Some (Inl (NoFilesFound directory extensions), st)
      \<longleftrightarrow> getSourceFiles e directory extensions = Some (Inr [])
          \<and> (readdirSync e directory = None
             \<or> (\<exists>items. readdirSync e directory = Some items
                   \<and> (\<forall>item \<in> set items.
                          statSync_isDirectory e (path_join directory item) = Some True \<longrightarrow>
                          getSourceFiles e (path_join directory item) extensions \<noteq> None
                          \<and> found_in e extensions (path_join directory item) = []))))
   \<and> (\<forall>err st'. createIndex e st directory extensions = Some (Inl err, st') \<longrightarrow>
          st' = st
          \<and> (err = NoFilesFound directory extensions
             \<or> (err = LibraryError
                \<and> getSourceFiles e directory extensions = Some (Inl LibraryError))))
   \<and> (\<forall>files. getSourceFiles e directory extensions = Some (Inr files) \<and> files \<noteq> [] \<longrightarrow>
          (\<exists>st' md. createIndex e st directory extensions = Some (Inr (), st')
                \<and> directoryIndices st' (getNormalizedDirectory e directory) = Some md
                \<and> map m_file md = filter (readable e) files))
   \<and> (\<forall>items. getSourceFiles e directory extensions = Some (Inr [])
          \<and> readdirSync e directory = Some items
          \<and> (\<forall>item \<in> set items.
                 statSync_isDirectory e (path_join directory item) = Some True \<longrightarrow>
                 getSourceFiles e (path_join directory item) extensions \<noteq> None)
          \<and> (\<exists>item \<in> set items.
                 statSync_isDirectory e (path_join directory item) = Some True
                 \<and> found_in e extensions (path_join directory item) \<noteq> []) \<longrightarrow>
          (\<exists>st' md. createIndex e st directory extensions = Some (Inr (), st')
                \<and> directoryIndices st' (getNormalizedDirectory e directory) = Some md
                \<and> map m_file md =
                    filter (readable e)
                      (concat (map (\<lambda>item. found_in e extensions (path_join directory item))
                         (filter (\<lambda>item. statSync_isDirectory e (path_join directory item)
                                           = Some True) items)))))
   \<and> (isAbsolute directory \<longrightarrow> (\<exists>r st'. createIndex e st directory extensions = Some (r, st')))"
proof (intro conjI allI impI)
  show "createIndex e st directory extensions = Some (Inl (NoFilesFound directory extensions), st)
      \<longleftrightarrow> getSourceFiles e directory extensions = Some (Inr [])
          \<and> (readdirSync e directory = None
             \<or> (\<exists>items. readdirSync e directory = Some items
                   \<and> (\<forall>item \<in> set items.
                          statSync_isDirectory e (path_join directory item) = Some True \<longrightarrow>
                          getSourceFiles e (path_join directory item) extensions \<noteq> None
                          \<and> found_in e extensions (path_join directory item) = [])))"
    unfolding createIndex_NoFilesFound by (rule find_files_NoFilesFound_items)
next
  fix err st'
  assume c: "createIndex e st directory extensions = Some (Inl err, st')"
  from createIndex_error_cases[OF c] show "st' = st" by simp
  from createIndex_error_cases[OF c]
  show "err = NoFilesFound directory extensions
          \<or> (err = LibraryError \<and> getSourceFiles e directory extensions = Some (Inl LibraryError))"
    by simp
next
  fix files
  assume "getSourceFiles e directory extensions = Some (Inr files) \<and> files \<noteq> []"
  then have "find_files e directory extensions = Some (Inr files)"
    by (simp add: find_files_direct)
  then show "\<exists>st' md. createIndex e st directory extensions = Some (Inr (), st')
          \<and> directoryIndices st' (getNormalizedDirectory e directory) = Some md
          \<and> map m_file md = filter (readable e) files"
    by (rule createIndex_found)
next
  fix items
  assume a: "getSourceFiles e directory extensions = Some (Inr [])
          \<and> readdirSync e directory = Some items
          \<and> (\<forall>item \<in> set items.
                 statSync_isDirectory e (path_join directory item) = Some True \<longrightarrow>
                 getSourceFiles e (path_join directory item) extensions \<noteq> None)
          \<and> (\<exists>item \<in> set items.
                 statSync_isDirectory e (path_join directory item) = Some True
                 \<and> found_in e extensions (path_join directory item) \<noteq> [])"
  have "find_files e directory extensions =
          Some (Inr (concat (map (\<lambda>item. found_in e extensions (path_join directory item))
                  (filter (\<lambda>item. statSync_isDirectory e (path_join directory item) = Some True)
                     items))))"
    by (rule find_files_subdirs) (use a in blast)+
  then show "\<exists>st' md. createIndex e st directory extensions = Some (Inr (), st')
                \<and> directoryIndices st' (getNormalizedDirectory e directory) = Some md
                \<and> map m_file md =
                    filter (readable e)
                      (concat (map (\<lambda>item. found_in e extensions (path_join directory item))
                         (filter (\<lambda>item. statSync_isDirectory e (path_join directory item)
                                           = Some True) items)))"
    by (rule createIndex_found)
next
  assume "isAbsolute directory"
  then show "\<exists>r st'. createIndex e st directory extensions = Some (r, st')"
    by (rule createIndex_returns)
qed

text \<open>
  The theorem at the example project, indexed from its root \<open>/proj\<close>.  Seen from the
  root every source file is ignored, so the build goes through the entries of the
  directory: \<open>src\<close> is a directory and discovery finds three files there, of which
  \<open>gone.ts\<close> cannot be read; \<open>README.md\<close> is not a directory.  In the same project without
  any source file the sub-directory gives nothing either, and the build fails.  Indexed
  from \<open>/proj/src\<close>, the files are found directly.
\<close>

theorem createIndex_NoFilesFound_iff_witness:
  "createIndex empty_project new_engine ''/proj'' None
     = Some (Inl (NoFilesFound ''/proj'' None), new_engine)
   \<and> (\<exists>st' md. createIndex demo_env new_engine ''/proj'' None = Some (Inr (), st')
          \<and> directoryIndices st' ''/proj/'' = Some md
          \<and> map m_file md = [''/proj/src/A.ts'', ''/proj/src/B.ts''])
   \<and> (\<exists>st' md. createIndex demo_env new_engine ''/proj/src'' None = Some (Inr (), st')
          \<and> directoryIndices st' ''/proj/src/'' = Some md
          \<and> map m_file md = [''/proj/src/A.ts'', ''/proj/src/B.ts''])"
proof -
  have j: "path_join ''/proj'' ''src'' = ''/proj/src''"
    "path_join ''/proj'' ''README.md'' = ''/proj/README.md''"
    by code_simp+
  have g0: "getSourceFiles empty_project ''/proj'' None = Some (Inr [])" by code_simp
  have r0: "readdirSync empty_project ''/proj'' = Some [''src'', ''README.md'']" by code_simp
  have s0: "statSync_isDirectory empty_project ''/proj/src'' = Some True"
    "statSync_isDirectory empty_project ''/proj/README.md'' = None"
    by code_simp+
  have g1: "getSourceFiles empty_project ''/proj/src'' None = Some (Inr [])" by code_simp
  have f1: "found_in empty_project None ''/proj/src'' = []" by (simp add: found_in_def g1)
  have none: "createIndex empty_project new_engine ''/proj'' None
     = Some (Inl (NoFilesFound ''/proj'' None), new_engine)"
    by (rule createIndex_NoFilesFound_iff[of empty_project new_engine "''/proj''" None,
          THEN conjunct1, THEN iffD2]) (simp add: g0 r0 j s0 g1 f1)
  have g: "getSourceFiles demo_env ''/proj'' None = Some (Inr [])" by code_simp
  have r: "readdirSync demo_env ''/proj'' = Some [''src'', ''README.md'']" by code_simp
  have s: "statSync_isDirectory demo_env ''/proj/src'' = Some True"
    "statSync_isDirectory demo_env ''/proj/README.md'' = None"
    by code_simp+
  have gs: "getSourceFiles demo_env ''/proj/src'' None
              = Some (Inr [''/proj/src/A.ts'', ''/proj/src/B.ts'', ''/proj/src/gone.ts''])"
    by code_simp
  have fs: "found_in demo_env None ''/proj/src''
              = [''/proj/src/A.ts'', ''/proj/src/B.ts'', ''/proj/src/gone.ts'']"
    by (simp add: found_in_def gs)
  have rd: "readable demo_env ''/proj/src/A.ts''" "readable demo_env ''/proj/src/B.ts''"
    "\<not> readable demo_env ''/proj/src/gone.ts''"
    by code_simp+
  have n: "getNormalizedDirectory demo_env ''/proj'' = ''/proj/''"
    "getNormalizedDirectory demo_env ''/proj/src'' = ''/proj/src/''"
    by code_simp+
  have h: "getSourceFiles demo_env ''/proj'' None = Some (Inr [])
          \<and> readdirSync demo_env ''/proj'' = Some [''src'', ''README.md'']
          \<and> (\<forall>item \<in> set [''src'', ''README.md''].
                 statSync_isDirectory demo_env (path_join ''/proj'' item) = Some True \<longrightarrow>
                 getSourceFiles demo_env (path_join ''/proj'' item) None \<noteq> None)
          \<and> (\<exists>item \<in> set [''src'', ''README.md''].
                 statSync_isDirectory demo_env (path_join ''/proj'' item) = Some True
                 \<and> found_in demo_env None (path_join ''/proj'' item) \<noteq> [])"
    by (simp add: g r j s gs fs)
  from createIndex_NoFilesFound_iff[of demo_env new_engine "''/proj''" None,
      THEN conjunct2, THEN conjunct2, THEN conjunct2, THEN conjunct1, rule_format, OF h]
  have sub: "\<exists>st' md. createIndex demo_env new_engine ''/proj'' None = Some (Inr (), st')
          \<and> directoryIndices st' ''/proj/'' = Some md
          \<and> map m_file md = [''/proj/src/A.ts'', ''/proj/src/B.ts'']"
    by (simp add: n j s fs rd)
  have h2: "getSourceFiles demo_env ''/proj/src'' None
              = Some (Inr [''/proj/src/A.ts'', ''/proj/src/B.ts'', ''/proj/src/gone.ts''])
            \<and> [''/proj/src/A.ts'', ''/proj/src/B.ts'', ''/proj/src/gone.ts''] \<noteq> []"
    by (simp add: gs)
  from createIndex_NoFilesFound_iff[of demo_env new_engine "''/proj/src''" None,
      THEN conjunct2, THEN conjunct2, THEN conjunct1, rule_format, OF h2]
  have direct: "\<exists>st' md. createIndex demo_env new_engine ''/proj/src'' None = Some (Inr (), st')
          \<and> directoryIndices st' ''/proj/src/'' = Some md
          \<and> map m_file md = [''/proj/src/A.ts'', ''/proj/src/B.ts'']"
    by (simp add: n rd)
  show ?thesis using none sub direct by blast
qed

section \<open>The lazy build of search\<close>

lemma parse_re_error:
  "parse_re st s = Inl err \<Longrightarrow> err = SyntaxError \<or> err = NotModelled"
proof (induction s arbitrary: st rule: length_induct)
  case (1 s)
  have ih: "parse_re st' t = Inl err \<Longrightarrow> length t < length s
              \<Longrightarrow> err = SyntaxError \<or> err = NotModelled" for st' t
    using "1.IH" by blast
  show ?case
  proof (cases s)
    case Nil
    then show ?thesis using "1.prems" by (auto split: list.splits)
  next
    case (Cons c cs)
    show ?thesis
    proof (cases st)
      case Nil
      then show ?thesis using "1.prems" Cons by simp
    next
      case fr: (Cons f up)
      obtain alts ts q where f: "f = (alts, ts, q)" by (cases f)
      have short: "length cs < length s" using Cons by simp
      have short2: "cs = e # cs' \<Longrightarrow> length cs' < length s" for e cs' using Cons by simp
      show ?thesis
        using "1.prems" ih[OF _ short] ih[OF _ short2]
        unfolding Cons fr f parse_re.simps
        by (simp only: list.case prod.case split: if_splits list.splits prod.splits) auto
    qed
  qed
qed

lemma RegExp_new_error: "RegExp_new s = Inl err \<Longrightarrow> err = SyntaxError \<or> err = NotModelled"
  unfolding RegExp_new_def by (rule parse_re_error)

lemma fallback_keyword_error:
  "fallback_keyword lcode score k = Inl err \<Longrightarrow> err = SyntaxError \<or> err = NotModelled"
  unfolding fallback_keyword_def Let_def
  by (auto split: sum.splits if_splits dest: RegExp_new_error)

lemma fallback_score_error:
  "fallback_score lcode score ks = Inl err \<Longrightarrow> err = SyntaxError \<or> err = NotModelled"
proof (induction ks arbitrary: score)
  case Nil
  then show ?case by simp
next
  case (Cons k ks)
  show ?case
  proof (cases "fallback_keyword lcode score k")
    case (Inl er)
    then show ?thesis using Cons.prems fallback_keyword_error by auto
  next
    case (Inr s)
    then show ?thesis using Cons by simp
  qed
qed

lemma fallback_items_error:
  "fallback_items toks acc md = Inl err \<Longrightarrow> err = SyntaxError \<or> err = NotModelled"
proof (induction md arbitrary: acc)
  case Nil
  then show ?case by simp
next
  case (Cons x xs)
  show ?case
  proof (cases "fallback_score (toLowerCase (m_code x)) 0 toks")
    case (Inl er)
    then show ?thesis using Cons.prems fallback_score_error by auto
  next
    case (Inr s)
    then show ?thesis using Cons by simp
  qed
qed

lemma keywordSearch_error:
  "keywordSearch e st q d = Inl err \<Longrightarrow> err = SyntaxError \<or> err = NotModelled"
  unfolding keywordSearch_def Let_def
  by (auto split: if_splits dest: fallback_items_error)

lemma scored_results_error: "scored_results md scores = Inl err \<Longrightarrow> err = TypeError"
  by (induction md scores rule: scored_results.induct) (auto split: option.splits sum.splits)

lemma ranked_results_NoIndexedFiles:
  "ranked_results e st q d = Inl (NoIndexedFiles d') \<longleftrightarrow>
     d' = d \<and> getMetadataForDirectory e st d = []"
proof (cases "getMetadataForDirectory e st d = []")
  case True
  then show ?thesis by (auto simp: ranked_results_def)
next
  case False
  have "ranked_results e st q d \<noteq> Inl (NoIndexedFiles d')"
  proof
    assume a: "ranked_results e st q d = Inl (NoIndexedFiles d')"
    show False
    proof (cases "keywordSearch e st q d")
      case (Inl er)
      then show ?thesis using a False keywordSearch_error[OF Inl] by (auto simp: ranked_results_def)
    next
      case (Inr scores)
      show ?thesis
      proof (cases "scored_results (getMetadataForDirectory e st d) scores")
        case (Inl er)
        then show ?thesis
          using a False Inr scored_results_error[OF Inl] by (auto simp: ranked_results_def)
      next
        case r: (Inr srs)
        then show ?thesis using a False Inr by (auto simp: ranked_results_def)
      qed
    qed
  qed
  then show ?thesis using False by simp
qed

lemma createIndex_Inr_index:
  "createIndex e st d exts = Some (Inr u, st') \<Longrightarrow>
     \<exists>files. files \<noteq> [] \<and> find_files e d exts = Some (Inr files)
        \<and> directoryIndices st' (getNormalizedDirectory e d) = Some (foldl (index_file e) [] files)"
  using createIndex_Inr[of e st d exts u st'] find_files_nonempty by fastforce

lemma search_absent:
  assumes "directoryIndices st (getNormalizedDirectory e directory) = None"
  shows "search e st query directory =
     (case createIndex e st directory
             (Some (case indexedExtensions st (getNormalizedDirectory e directory) of
                      None \<Rightarrow> defaultExtensions | Some exts \<Rightarrow> exts)) of
        None \<Rightarrow> None
      | Some (Inl err, st') \<Rightarrow> Some (Inl err, st')
      | Some (Inr u, st') \<Rightarrow> Some (ranked_results e st' query directory, st'))"
  using assms by (simp add: search_def Let_def)

lemma search_result_cases:
  assumes "search e st query directory = Some (r, st')"
  shows "(directoryIndices st' (getNormalizedDirectory e directory) \<noteq> None
            \<and> r = ranked_results e st' query directory)
       \<or> (directoryIndices st' (getNormalizedDirectory e directory) = None \<and> st' = st
            \<and> (\<exists>err. r = Inl err
                  \<and> createIndex e st directory
                       (Some (case indexedExtensions st (getNormalizedDirectory e directory) of
                                None \<Rightarrow> defaultExtensions | Some exts \<Rightarrow> exts))
                     = Some (Inl err, st)))"
proof (cases "directoryIndices st (getNormalizedDirectory e directory) = None")
  case False
  then show ?thesis using assms by (auto simp: search_present)
next
  case True
  define built where "built = createIndex e st directory
             (Some (case indexedExtensions st (getNormalizedDirectory e directory) of
                      None \<Rightarrow> defaultExtensions | Some exts \<Rightarrow> exts))"
  have s: "search e st query directory =
     (case built of None \<Rightarrow> None | Some (Inl err, st1) \<Rightarrow> Some (Inl err, st1)
      | Some (Inr u, st1) \<Rightarrow> Some (ranked_results e st1 query directory, st1))"
    using search_absent[OF True] by (simp add: built_def)
  show ?thesis
  proof (cases built)
    case None
    then show ?thesis using assms s by simp
  next
    case (Some b)
    obtain res st1 where b: "b = (res, st1)" by (cases b)
    show ?thesis
    proof (cases res)
      case (Inl err)
      have c: "createIndex e st directory
             (Some (case indexedExtensions st (getNormalizedDirectory e directory) of
                      None \<Rightarrow> defaultExtensions | Some exts \<Rightarrow> exts)) = Some (Inl err, st1)"
        using Some b Inl by (simp add: built_def)
      have "st1 = st" using createIndex_Inl[OF c] by simp
      then show ?thesis using assms s Some b Inl True c by auto
    next
      case (Inr u)
      have c: "createIndex e st directory
             (Some (case indexedExtensions st (getNormalizedDirectory e directory) of
                      None \<Rightarrow> defaultExtensions | Some exts \<Rightarrow> exts)) = Some (Inr u, st1)"
        using Some b Inr by (simp add: built_def)
      have "directoryIndices st1 (getNormalizedDirectory e directory) \<noteq> None"
        using createIndex_key[OF c] .
      then show ?thesis using assms s Some b Inr by auto
    qed
  qed
qed

text \<open>
  Claim C7, as amended.  When the directory has an index, \<open>search\<close> builds nothing: it
  ranks on the index it has, leaves the engine as it is, and does not depend on the file
  system.  When the directory has none, \<open>search\<close> first runs \<open>createIndex\<close> with the
  remembered extensions, or the defaults.  If that build fails, \<open>search\<close> fails with the
  build's error (\<open>NoFilesFound\<close>, or the error of discovery), the engine is unchanged and
  the directory still has no index.  A \<open>search\<close> that returns fails with
  \<open>NoIndexedFiles\<close> exactly when the directory then has an index with no record.  Once
  the directory has an index, every later \<open>search\<close> in it builds nothing.
\<close>

theorem search_lazy_build:
  "(directoryIndices st (getNormalizedDirectory e directory) \<noteq> None \<longrightarrow>
      search e st query directory = Some (ranked_results e st query directory, st)
      \<and> (\<forall>e'::env. cwd e' = cwd e \<longrightarrow>
             search e' st query directory = search e st query directory))
   \<and> (directoryIndices st (getNormalizedDirectory e directory) = None \<longrightarrow>
        search e st query directory =
          (case createIndex e st directory
                  (Some (case indexedExtensions st (getNormalizedDirectory e directory) of
                           None \<Rightarrow> defaultExtensions | Some exts \<Rightarrow> exts)) of
             None \<Rightarrow> None
           | Some (Inl err, st') \<Rightarrow> Some (Inl err, st')
           | Some (Inr u, st') \<Rightarrow> Some (ranked_results e st' query directory, st')))
   \<and> (\<forall>r st'. search e st query directory = Some (r, st') \<longrightarrow>
          (r = Inl (NoIndexedFiles directory)
             \<longleftrightarrow> directoryIndices st' (getNormalizedDirectory e directory) = Some [])
          \<and> (directoryIndices st' (getNormalizedDirectory e directory) = None \<longrightarrow>
                st' = st
                \<and> (r = Inl (NoFilesFound directory
                             (Some (case indexedExtensions st (getNormalizedDirectory e directory) of
                                      None \<Rightarrow> defaultExtensions | Some exts \<Rightarrow> exts)))
                   \<or> r = Inl LibraryError))
          \<and> (directoryIndices st' (getNormalizedDirectory e directory) \<noteq> None \<longrightarrow>
                (\<forall>(e'::env) q'. cwd e' = cwd e \<longrightarrow>
                   search e' st' q' directory = Some (ranked_results e st' q' directory, st'))))"
proof (intro conjI allI impI)
  assume p: "directoryIndices st (getNormalizedDirectory e directory) \<noteq> None"
  show "search e st query directory = Some (ranked_results e st query directory, st)"
    using search_present[OF p] .
  fix e' :: env assume c: "cwd e' = cwd e"
  have "directoryIndices st (getNormalizedDirectory e' directory) \<noteq> None"
    using p getNormalizedDirectory_cwd[OF c] by simp
  then show "search e' st query directory = search e st query directory"
    using p by (simp add: search_present ranked_results_cwd[OF c])
next
  assume "directoryIndices st (getNormalizedDirectory e directory) = None"
  then show "search e st query directory =
          (case createIndex e st directory
                  (Some (case indexedExtensions st (getNormalizedDirectory e directory) of
                           None \<Rightarrow> defaultExtensions | Some exts \<Rightarrow> exts)) of
             None \<Rightarrow> None
           | Some (Inl err, st') \<Rightarrow> Some (Inl err, st')
           | Some (Inr u, st') \<Rightarrow> Some (ranked_results e st' query directory, st'))"
    by (rule search_absent)
next
  fix r st'
  assume s: "search e st query directory = Some (r, st')"
  note cases = search_result_cases[OF s]
  show "r = Inl (NoIndexedFiles directory)
          \<longleftrightarrow> directoryIndices st' (getNormalizedDirectory e directory) = Some []"
  proof (cases "directoryIndices st' (getNormalizedDirectory e directory)")
    case None
    then obtain err where r: "r = Inl err" and c: "createIndex e st directory
                       (Some (case indexedExtensions st (getNormalizedDirectory e directory) of
                                None \<Rightarrow> defaultExtensions | Some exts \<Rightarrow> exts))
                     = Some (Inl err, st)"
      using cases by auto
    have "err \<noteq> NoIndexedFiles directory"
      using find_files_error[of e directory _ err] createIndex_Inl[OF c] by auto
    then show ?thesis using None r by simp
  next
    case (Some md)
    then have "r = ranked_results e st' query directory" using cases by auto
    then show ?thesis
      using Some ranked_results_NoIndexedFiles[of e st' query directory directory]
      by (auto simp: getMetadataForDirectory_def)
  qed
next
  fix r st'
  assume s: "search e st query directory = Some (r, st')"
    and n: "directoryIndices st' (getNormalizedDirectory e directory) = None"
  from search_result_cases[OF s] n obtain err where st: "st' = st" and r: "r = Inl err"
    and c: "createIndex e st directory
                       (Some (case indexedExtensions st (getNormalizedDirectory e directory) of
                                None \<Rightarrow> defaultExtensions | Some exts \<Rightarrow> exts))
                     = Some (Inl err, st)"
    by auto
  show "st' = st" using st .
  show "r = Inl (NoFilesFound directory
                   (Some (case indexedExtensions st (getNormalizedDirectory e directory) of
                            None \<Rightarrow> defaultExtensions | Some exts \<Rightarrow> exts)))
          \<or> r = Inl LibraryError"
    using find_files_error[of e directory _ err] createIndex_Inl[OF c] r by auto
next
  fix r st' and e' :: env and q'
  assume s: "search e st query directory = Some (r, st')"
    and p: "directoryIndices st' (getNormalizedDirectory e directory) \<noteq> None"
    and c: "cwd e' = cwd e"
  have "directoryIndices st' (getNormalizedDirectory e' directory) \<noteq> None"
    using p getNormalizedDirectory_cwd[OF c] by simp
  then show "search e' st' q' directory = Some (ranked_results e st' q' directory, st')"
    by (simp add: search_present ranked_results_cwd[OF c])
qed

text \<open>
  The theorem at the example project: the first search in \<open>/proj/src\<close> builds the
  index; the second, run where no file can be read, returns the same results from it.
\<close>

theorem search_lazy_build_witness:
  "\<exists>st'. search demo_env new_engine ''add'' ''/proj/src'' = Some (Inr demo_results, st')
         \<and> search bare_env st' ''add'' ''/proj/src'' = Some (Inr demo_results, st')"
proof -
  have ev: "map_option fst (search demo_env new_engine ''add'' ''/proj/src'') = Some (Inr demo_results)"
    by code_simp
  then obtain st' where s: "search demo_env new_engine ''add'' ''/proj/src'' = Some (Inr demo_results, st')"
    by (cases "search demo_env new_engine ''add'' ''/proj/src''") auto
  have c: "cwd bare_env = cwd demo_env" by code_simp
  note t = search_lazy_build[of new_engine demo_env "''/proj/src''" "''add''",
      THEN conjunct2, THEN conjunct2, rule_format, OF s]
  have k: "directoryIndices st' (getNormalizedDirectory demo_env ''/proj/src'') \<noteq> None"
    using t by auto
  have "search bare_env st' ''add'' ''/proj/src''
          = Some (ranked_results demo_env st' ''add'' ''/proj/src'', st')"
    using t k c by blast
  moreover have "ranked_results demo_env st' ''add'' ''/proj/src'' = Inr demo_results"
    using search_Inr_D[OF s] by simp
  ultimately show ?thesis using s by auto
qed

text \<open>
  The claim as stated has \<open>search\<close> fail with \<open>NoIndexedFiles\<close> whenever the directory
  has no record after the build attempt.  In \<open>/proj/docs\<close>, which holds no source file,
  the build attempt fails, the directory has no record, and \<open>search\<close> fails with
  \<open>NoFilesFound\<close>.
\<close>

theorem NoIndexedFiles_counterexample:
  "map_option fst (search demo_env new_engine ''add'' ''/proj/docs'')
     = Some (Inl (NoFilesFound ''/proj/docs'' (Some defaultExtensions)))
   \<and> map_option (\<lambda>res. getMetadataForDirectory demo_env (snd res) ''/proj/docs'')
        (search demo_env new_engine ''add'' ''/proj/docs'') = Some []
   \<and> NoFilesFound ''/proj/docs'' (Some defaultExtensions) \<noteq> NoIndexedFiles ''/proj/docs''"
  by code_simp

section \<open>Relative directories\<close>

text \<open>
  Claim C8 at a fresh engine.  The relative spelling \<open>./src\<close> and the absolute spelling
  \<open>/proj/src\<close> have the same key, and the search with the absolute spelling builds the
  index and returns its results.  The search with the relative spelling has to build the
  index too, and its build does not return: \<open>loadGitignore\<close> walks from \<open>./src\<close> to
  \<open>.\<close>, whose parent directory is \<open>.\<close> again, and never meets the root.
\<close>

theorem relative_directory_search:
  "getNormalizedDirectory demo_env ''./src'' = getNormalizedDirectory demo_env ''/proj/src''
   \<and> map_option fst (search demo_env new_engine ''add'' ''/proj/src'') = Some (Inr demo_results)
   \<and> path_dirname ''./src'' = ''.'' \<and> path_dirname ''.'' = ''.'' \<and> path_parse_root ''.'' = []
   \<and> search demo_env new_engine ''add'' ''./src'' = None"
proof -
  have a: "getNormalizedDirectory demo_env ''./src'' = getNormalizedDirectory demo_env ''/proj/src''"
    by code_simp
  have b: "map_option fst (search demo_env new_engine ''add'' ''/proj/src'') = Some (Inr demo_results)"
    by code_simp
  have c: "path_dirname ''./src'' = ''.'' \<and> path_dirname ''.'' = ''.'' \<and> path_parse_root ''.'' = []"
    by code_simp
  have n: "directoryIndices new_engine (getNormalizedDirectory demo_env ''./src'') = None"
    by (simp add: new_engine_def)
  have r: "\<not> isAbsolute ''./src''" by (simp add: isAbsolute_def)
  have "search demo_env new_engine ''add'' ''./src'' = None"
    by (rule search_diverges[OF _ r n]) simp
  then show ?thesis using a b c by simp
qed

section \<open>The on-the-fly scan\<close>

text \<open>
  Claim C2 at an index in FALLBACK mode.  The only file holds the text \<open>a-b\<close>, which has
  no keyword, so \<open>keywordSearch\<close> scans the text.  The token \<open>a.b\<close> does not occur in
  the text, yet the file scores \<open>0.01\<close>: the token is compiled as a regular expression
  (\<open>new RegExp(keyword, 'g')\<close>) and its dot matches the hyphen.  The token \<open>c++\<close> is not
  a regular expression at all, and the search throws a \<open>SyntaxError\<close> instead of counting
  occurrences.
\<close>

theorem fallback_token_is_pattern:
  "extractKeywords ''a-b'' = []
   \<and> hasKeywordIndices (getMetadataForDirectory bare_env fallback_engine ''/proj/src'') = False
   \<and> str_includes (toLowerCase ''a-b'') ''a.b'' = False
   \<and> keywordSearch bare_env fallback_engine ''a.b'' ''/proj/src''
       = Inr [(''/proj/src/x.ts'', 1 / 100)]
   \<and> map_option fst (search bare_env fallback_engine ''a.b'' ''/proj/src'')
       = Some (Inr [\<lparr>r_file = ''/proj/src/x.ts'', r_code = ''a-b'',
                        similarityScore = 1 / 100, rank = 1\<rparr>])
   \<and> RegExp_new ''c++'' = Inl SyntaxError
   \<and> keywordSearch bare_env fallback_engine ''c++'' ''/proj/src'' = Inl SyntaxError
   \<and> map_option fst (search bare_env fallback_engine ''c++'' ''/proj/src'')
       = Some (Inl SyntaxError)"
  by code_simp

section \<open>The choice of the scoring mode\<close>

lemma index_files_keywords:
  "\<forall>item \<in> set acc. m_keywords item = extractKeywords (m_code item) \<Longrightarrow>
   \<forall>item \<in> set (foldl (index_file e) acc fs). m_keywords item = extractKeywords (m_code item)"
proof (induction fs arbitrary: acc)
  case Nil
  then show ?case by simp
next
  case (Cons f fs)
  have "\<forall>item \<in> set (index_file e acc f). m_keywords item = extractKeywords (m_code item)"
    using Cons.prems by (auto simp: index_file_def split: option.splits)
  then show ?case using Cons.IH by simp
qed

lemma createIndex_keywords:
  assumes "\<forall>k md. directoryIndices st k = Some md \<longrightarrow>
             (\<forall>item \<in> set md. m_keywords item = extractKeywords (m_code item))"
    and "createIndex e st d exts = Some (r, st')"
  shows "\<forall>k md. directoryIndices st' k = Some md \<longrightarrow>
           (\<forall>item \<in> set md. m_keywords item = extractKeywords (m_code item))"
proof (cases r)
  case (Inl err)
  then show ?thesis using assms createIndex_Inl[of e st d exts err st'] by simp
next
  case (Inr u)
  then obtain files where
    s: "st' = st\<lparr>indexedExtensions := (indexedExtensions st)
                      (getNormalizedDirectory e d \<mapsto>
                         (case exts of None \<Rightarrow> defaultExtensions | Some xs \<Rightarrow> xs)),
                   directoryIndices := (directoryIndices st)
                      (getNormalizedDirectory e d \<mapsto> foldl (index_file e) [] files)\<rparr>"
    using assms(2) createIndex_Inr[of e st d exts u st'] by blast
  have new: "\<forall>item \<in> set (foldl (index_file e) [] files).
               m_keywords item = extractKeywords (m_code item)"
    by (rule index_files_keywords) simp
  show ?thesis
  proof (intro allI impI)
    fix k md assume "directoryIndices st' k = Some md"
    then have "md = foldl (index_file e) [] files \<or> directoryIndices st k = Some md"
      using s by (auto split: if_splits)
    then show "\<forall>item \<in> set md. m_keywords item = extractKeywords (m_code item)"
      using new assms(1) by blast
  qed
qed

lemma reachable_keywords:
  "reachable st \<Longrightarrow>
   \<forall>k md. directoryIndices st k = Some md \<longrightarrow>
     (\<forall>item \<in> set md. m_keywords item = extractKeywords (m_code item))"
proof (induction rule: reachable.induct)
  case init
  then show ?case by (simp add: new_engine_def)
next
  case (create st e directory extensions r st')
  then show ?case using createIndex_keywords by blast
next
  case (search st e query directory rs st')
  then show ?case
    using search_state[of e st query directory rs st'] createIndex_keywords by blast
next
  case (files st e query directory fs st')
  then obtain r' where "search e st query directory = Some (r', st')"
    using getRelevantFiles_state by blast
  then show ?case
    using files.IH search_state[of e st query directory r' st'] createIndex_keywords by blast
qed

lemma reachable_metadata:
  assumes "reachable st"
  shows "\<forall>item \<in> set (getMetadataForDirectory e st directory).
           m_keywords item = extractKeywords (m_code item)"
proof (cases "directoryIndices st (getNormalizedDirectory e directory)")
  case None
  then show ?thesis by (simp add: getMetadataForDirectory_def)
next
  case (Some md)
  then have "getMetadataForDirectory e st directory = md"
    by (simp add: getMetadataForDirectory_def)
  then show ?thesis using reachable_keywords[OF assms] Some by blast
qed

lemma mail_state_reachable: "reachable mail_state"
proof -
  have a: "isAbsolute ''/proj/src''" "isAbsolute ''/proj/lib''" by (simp_all add: isAbsolute_def)
  obtain r st where c: "createIndex mail_env new_engine ''/proj/src'' None = Some (r, st)"
    using createIndex_returns[OF a(1)] by blast
  obtain r' st' where c': "createIndex mail_env st ''/proj/lib'' None = Some (r', st')"
    using createIndex_returns[OF a(2)] by blast
  have "mail_state = st'" using c c' by (simp add: mail_state_def)
  then show ?thesis
    using reachable.create[OF reachable.create[OF reachable.init c] c'] by simp
qed

text \<open>
  Claim C1.  In every state an engine can reach, the keyword map of a record is the one
  extracted from its text, and its keys are distinct.  \<open>keywordSearch\<close> chooses its mode
  once, for the whole directory.  When at least one record of the directory's index has a
  non-empty keyword map, every record is scored from its keyword map: the score of a file
  is the sum, over the query tokens, of the token's weight times 0.01 plus, for each
  distinct indexed term of which the token is a proper substring, that term's weight times
  0.005.  A file is in the result exactly when this sum is positive (the last record of a
  path counts when a path is indexed twice).  In particular, for the query \<open>email\<close> a file
  whose only indexed term is \<open>emailnotifier\<close> gets a score above 0.  When no record has a
  non-empty keyword map, the keyword maps are not used: the result is that of the scan of
  the texts.
\<close>

theorem prebuilt_mode_score:
  assumes "reachable st"
  shows "(\<forall>item \<in> set (getMetadataForDirectory e st directory).
            m_keywords item = extractKeywords (m_code item)
            \<and> distinct (map fst (m_keywords item)))
     \<and> ((\<exists>item \<in> set (getMetadataForDirectory e st directory). m_keywords item \<noteq> []) \<longrightarrow>
          (\<exists>scores. keywordSearch e st query directory = Inr scores
             \<and> (\<forall>f. map_of scores f =
                   map_option (\<lambda>item. prebuilt_spec (m_keywords item) (queryKeywords_of query))
                     (find (\<lambda>item. m_file item = f
                              \<and> 0 < prebuilt_spec (m_keywords item) (queryKeywords_of query))
                        (rev (getMetadataForDirectory e st directory))))
             \<and> (\<forall>item \<in> set (getMetadataForDirectory e st directory). \<forall>w.
                   query = ''email'' \<and> m_keywords item = [(''emailnotifier'', w)] \<and> 0 < w
                   \<longrightarrow> (\<exists>s. map_of scores (m_file item) = Some s \<and> 0 < s))))
     \<and> ((\<forall>item \<in> set (getMetadataForDirectory e st directory). m_keywords item = []) \<longrightarrow>
          keywordSearch e st query directory =
            (if queryKeywords_of query = [] then Inr []
             else fallback_items (queryKeywords_of query) []
                    (getMetadataForDirectory e st directory)))"
proof (intro conjI impI)
  have k: "\<forall>item \<in> set (getMetadataForDirectory e st directory).
             m_keywords item = extractKeywords (m_code item)"
    using assms by (rule reachable_metadata)
  then show d: "\<forall>item \<in> set (getMetadataForDirectory e st directory).
            m_keywords item = extractKeywords (m_code item)
            \<and> distinct (map fst (m_keywords item))"
    using extractKeywords_distinct by simp
  assume "\<exists>item \<in> set (getMetadataForDirectory e st directory). m_keywords item \<noteq> []"
  then show "\<exists>scores. keywordSearch e st query directory = Inr scores
             \<and> (\<forall>f. map_of scores f =
                   map_option (\<lambda>item. prebuilt_spec (m_keywords item) (queryKeywords_of query))
                     (find (\<lambda>item. m_file item = f
                              \<and> 0 < prebuilt_spec (m_keywords item) (queryKeywords_of query))
                        (rev (getMetadataForDirectory e st directory))))
             \<and> (\<forall>item \<in> set (getMetadataForDirectory e st directory). \<forall>w.
                   query = ''email'' \<and> m_keywords item = [(''emailnotifier'', w)] \<and> 0 < w
                   \<longrightarrow> (\<exists>s. map_of scores (m_file item) = Some s \<and> 0 < s))"
    by (rule prebuilt_scores) (use d in blast)
next
  assume "\<forall>item \<in> set (getMetadataForDirectory e st directory). m_keywords item = []"
  then have "\<not> hasKeywordIndices (getMetadataForDirectory e st directory)"
    by (simp add: hasKeywordIndices_iff)
  then show "keywordSearch e st query directory =
            (if queryKeywords_of query = [] then Inr []
             else fallback_items (queryKeywords_of query) []
                    (getMetadataForDirectory e st directory))"
    by (simp add: keywordSearch_def Let_def)
qed

text \<open>
  The theorem at the example engine.  In \<open>/proj/src\<close> one file is indexed under
  \<open>emailnotifier\<close> and one under nothing, and the query is \<open>email\<close>.  In \<open>/proj/lib\<close> the
  only file has no keyword, and the query \<open>return\<close> finds it by the scan of its text,
  where the sum over its empty keyword map is 0.
\<close>

theorem prebuilt_mode_score_witness:
  "(\<exists>scores. keywordSearch mail_env mail_state ''email'' ''/proj/src'' = Inr scores
      \<and> map_of scores ''/proj/src/notify.ts'' = Some 0.005
      \<and> map_of scores ''/proj/src/x.ts'' = None)
   \<and> keywordSearch mail_env mail_state ''return'' ''/proj/lib'' = Inr [(''/proj/lib/y.ts'', 0.01)]
   \<and> prebuilt_spec [] (queryKeywords_of ''return'') = 0"
proof -
  have md: "getMetadataForDirectory mail_env mail_state ''/proj/src'' =
      [\<lparr>m_file = ''/proj/src/notify.ts'', m_code = ''emailnotifier'',
        m_keywords = [(''emailnotifier'', 1)], m_checksum = []\<rparr>,
       \<lparr>m_file = ''/proj/src/x.ts'', m_code = ''x'', m_keywords = [], m_checksum = []\<rparr>]"
    by code_simp
  have h1: "\<exists>item \<in> set (getMetadataForDirectory mail_env mail_state ''/proj/src'').
              m_keywords item \<noteq> []"
    unfolding md by simp
  have s1: "prebuilt_spec [(''emailnotifier'', Suc 0)] [''email''] = 0.005"
    by (simp add: prebuilt_spec_def indexed_terms_def proper_substring_def termWeight_def)
  have s2: "prebuilt_spec [] [''email''] = 0"
    by (simp add: prebuilt_spec_def indexed_terms_def proper_substring_def termWeight_def)
  from prebuilt_mode_score[OF mail_state_reachable, of mail_env "''/proj/src''" "''email''",
      THEN conjunct2, THEN conjunct1, rule_format, OF h1]
  obtain scores where
    run: "keywordSearch mail_env mail_state ''email'' ''/proj/src'' = Inr scores"
    and look: "\<And>f. map_of scores f =
                 map_option (\<lambda>item. prebuilt_spec (m_keywords item) (queryKeywords_of ''email''))
                   (find (\<lambda>item. m_file item = f
                            \<and> 0 < prebuilt_spec (m_keywords item) (queryKeywords_of ''email''))
                      (rev (getMetadataForDirectory mail_env mail_state ''/proj/src'')))"
    by blast
  have "map_of scores ''/proj/src/notify.ts'' = Some 0.005"
    unfolding look md queryKeywords_email by (simp add: s1 s2)
  moreover have "map_of scores ''/proj/src/x.ts'' = None"
    unfolding look md queryKeywords_email by (simp add: s1 s2)
  ultimately have a: "\<exists>scores. keywordSearch mail_env mail_state ''email'' ''/proj/src'' = Inr scores
      \<and> map_of scores ''/proj/src/notify.ts'' = Some 0.005
      \<and> map_of scores ''/proj/src/x.ts'' = None"
    using run by blast
  have ml: "getMetadataForDirectory mail_env mail_state ''/proj/lib'' =
      [\<lparr>m_file = ''/proj/lib/y.ts'', m_code = ''if (a) return b;'',
        m_keywords = [], m_checksum = []\<rparr>]"
    by code_simp
  have h2: "\<forall>item \<in> set (getMetadataForDirectory mail_env mail_state ''/proj/lib'').
              m_keywords item = []"
    unfolding ml by simp
  have q: "queryKeywords_of ''return'' = [''return'']" by code_simp
  have f: "fallback_items [''return''] []
             [\<lparr>m_file = ''/proj/lib/y.ts'', m_code = ''if (a) return b;'',
               m_keywords = [], m_checksum = []\<rparr>]
           = Inr [(''/proj/lib/y.ts'', 0.01)]"
    by code_simp
  from prebuilt_mode_score[OF mail_state_reachable, of mail_env "''/proj/lib''" "''return''",
      THEN conjunct2, THEN conjunct2, THEN mp, OF h2]
  have b: "keywordSearch mail_env mail_state ''return'' ''/proj/lib''
             = Inr [(''/proj/lib/y.ts'', 0.01)]"
    unfolding ml q f by simp
  have c: "prebuilt_spec [] (queryKeywords_of ''return'') = 0"
    unfolding q by (simp add: prebuilt_spec_def indexed_terms_def proper_substring_def
        termWeight_def)
  show ?thesis using a b c by blast
qed

section \<open>The tokens of a query\<close>

lemma split_acc_sep:
  "split_acc sep acc (a @ sep # b) = split_acc sep acc a @ split_acc sep [] b"
proof (induction a arbitrary: acc)
  case Nil
  show ?case by simp
next
  case (Cons x a)
  then show ?case by simp
qed

lemma split_char_sep: "split_char sep (a @ sep # b) = split_char sep a @ split_char sep b"
  by (simp add: split_char_def split_acc_sep)

lemma split_acc_none: "sep \<notin> set s \<Longrightarrow> split_acc sep acc s = [rev acc @ s]"
  by (induction s arbitrary: acc) auto

lemma split_char_none: "sep \<notin> set s \<Longrightarrow> split_char sep s = [s]"
  by (simp add: split_char_def split_acc_none)

lemma split_blank_lead:
  "\<forall>x \<in> set l. x = CHR '' '' \<Longrightarrow>
   filter (\<lambda>k. k \<noteq> []) (split_char CHR '' '' (l @ s)) = filter (\<lambda>k. k \<noteq> []) (split_char CHR '' '' s)"
proof (induction l)
  case Nil
  show ?case by simp
next
  case (Cons x l)
  then have "x = CHR '' ''" by simp
  then have "split_char CHR '' '' ((x # l) @ s) = [] # split_char CHR '' '' (l @ s)"
    by (simp add: split_char_def)
  then show ?case using Cons by simp
qed

lemma split_blank_only:
  "\<forall>x \<in> set l. x = CHR '' '' \<Longrightarrow> filter (\<lambda>k. k \<noteq> []) (split_char CHR '' '' l) = []"
  using split_blank_lead[of l "[]"] by (simp add: split_char_def)

lemma split_blank_trail:
  assumes "\<forall>x \<in> set w. x = CHR '' ''"
  shows "filter (\<lambda>k. k \<noteq> []) (split_char CHR '' '' (s @ w)) = filter (\<lambda>k. k \<noteq> []) (split_char CHR '' '' s)"
proof (cases w)
  case Nil
  then show ?thesis by simp
next
  case (Cons x w')
  then have x: "x = CHR '' ''" and w': "\<forall>x \<in> set w'. x = CHR '' ''" using assms by simp_all
  have "split_char CHR '' '' (s @ w) = split_char CHR '' '' s @ split_char CHR '' '' w'"
    using Cons x split_char_sep[of "CHR '' ''" s w'] by simp
  then show ?thesis using split_blank_only[OF w'] by simp
qed

lemma space_is_space: "is_space_char CHR '' ''"
  by code_simp

lemma tokens_ws_split:
  "blank_spaces c \<Longrightarrow> tokens_ws c = filter (\<lambda>k. k \<noteq> []) (split_char CHR '' '' c)"
proof (induction c rule: length_induct)
  case (1 c)
  define l where "l = takeWhile is_space_char c"
  define r where "r = dropWhile is_space_char c"
  have c: "c = l @ r" by (simp add: l_def r_def)
  have l: "\<forall>x \<in> set l. x = CHR '' ''"
    using 1(2) by (auto simp: blank_spaces_def l_def dest: set_takeWhileD)
  have lead: "filter (\<lambda>k. k \<noteq> []) (split_char CHR '' '' c)
                = filter (\<lambda>k. k \<noteq> []) (split_char CHR '' '' r)"
    using split_blank_lead[OF l, of r] c by simp
  have tw: "tokens_ws c = (case r of [] \<Rightarrow> []
              | x # xs \<Rightarrow> (x # takeWhile (\<lambda>c. \<not> is_space_char c) xs)
                           # tokens_ws (dropWhile (\<lambda>c. \<not> is_space_char c) xs))"
    unfolding r_def by (rule tokens_ws.simps)
  show ?case
  proof (cases r)
    case Nil
    have "tokens_ws c = []" using tw Nil by simp
    moreover have "filter (\<lambda>k. k \<noteq> []) (split_char CHR '' '' r) = []"
      unfolding Nil by (simp add: split_char_def)
    ultimately show ?thesis using lead by simp
  next
    case (Cons x xs)
    define t where "t = x # takeWhile (\<lambda>c. \<not> is_space_char c) xs"
    define m where "m = dropWhile (\<lambda>c. \<not> is_space_char c) xs"
    have tk: "tokens_ws c = t # tokens_ws m"
      using tw Cons by (simp add: t_def m_def)
    have "r \<noteq> []" using Cons by simp
    then have "\<not> is_space_char (hd r)" unfolding r_def by (rule hd_dropWhile)
    then have nx: "\<not> is_space_char x" using Cons by simp
    have nt: "CHR '' '' \<notin> set t"
      using nx space_is_space by (auto simp: t_def dest: set_takeWhileD)
    have rt: "r = t @ m" using Cons by (simp add: t_def m_def)
    have sub: "set m \<subseteq> set c" using c rt by auto
    have bm: "blank_spaces m" using sub 1(2) by (auto simp: blank_spaces_def)
    have lm: "length m < length c" using c rt by (simp add: t_def)
    show ?thesis
    proof (cases m)
      case Nil
      have "tokens_ws m = []" unfolding Nil by (rule tokens_ws_Nil)
      moreover have "split_char CHR '' '' r = [t]"
        using rt Nil split_char_none[OF nt] by simp
      ultimately show ?thesis using lead tk by (simp add: t_def)
    next
      case m: (Cons y ys)
      have "m \<noteq> []" using m by simp
      then have "\<not> \<not> is_space_char (hd m)" unfolding m_def by (rule hd_dropWhile)
      then have sy: "is_space_char y" using m by simp
      have "y \<in> set c" using sub m by auto
      then have y: "y = CHR '' ''" using sy 1(2) by (simp add: blank_spaces_def)
      have bys: "blank_spaces ys" using bm m by (simp add: blank_spaces_def)
      have lys: "length ys < length c" using lm m by simp
      have ih: "tokens_ws ys = filter (\<lambda>k. k \<noteq> []) (split_char CHR '' '' ys)"
        using 1(1) lys bys by blast
      have "tokens_ws m = tokens_ws ys"
        unfolding m using sy by (rule tokens_ws_space)
      moreover have "split_char CHR '' '' r = [t] @ split_char CHR '' '' ys"
      proof -
        have "r = t @ CHR '' '' # ys" using rt m y by simp
        then have "split_char CHR '' '' r = split_char CHR '' '' t @ split_char CHR '' '' ys"
          using split_char_sep[of "CHR '' ''" t ys] by simp
        then show ?thesis using split_char_none[OF nt] by simp
      qed
      ultimately show ?thesis using lead tk ih by (simp add: t_def)
    qed
  qed
qed

lemma collapse_blank: "blank_spaces (collapse_ws u)"
proof (induction u rule: collapse_ws.induct)
  case 1
  show ?case by (simp add: blank_spaces_def)
next
  case (2 x xs)
  then show ?case by (auto simp: blank_spaces_def)
qed

lemma collapse_head:
  "collapse_ws u = [] \<longleftrightarrow> u = []"
  "u \<noteq> [] \<Longrightarrow> is_space_char (hd (collapse_ws u)) \<longleftrightarrow> is_space_char (hd u)"
  by (cases u; simp add: space_is_space)+

lemma tokens_ws_Cons:
  assumes "\<not> is_space_char x"
  shows "tokens_ws (x # s) =
           (if s = [] \<or> is_space_char (hd s) then [x] # tokens_ws s
            else (x # hd (tokens_ws s)) # tl (tokens_ws s))"
proof (cases s)
  case Nil
  show ?thesis unfolding Nil using assms by (subst tokens_ws.simps) (simp add: tokens_ws_Nil)
next
  case (Cons y ys)
  show ?thesis
  proof (cases "is_space_char y")
    case True
    then show ?thesis unfolding Cons using assms by (subst tokens_ws.simps) simp
  next
    case False
    have a: "tokens_ws (x # y # ys) =
             (x # y # takeWhile (\<lambda>c. \<not> is_space_char c) ys)
               # tokens_ws (dropWhile (\<lambda>c. \<not> is_space_char c) ys)"
      using assms False by (subst tokens_ws.simps) simp
    have b: "tokens_ws (y # ys) =
             (y # takeWhile (\<lambda>c. \<not> is_space_char c) ys)
               # tokens_ws (dropWhile (\<lambda>c. \<not> is_space_char c) ys)"
      using False by (subst tokens_ws.simps) simp
    show ?thesis unfolding Cons using a b False by simp
  qed
qed

lemma tokens_ws_collapse: "tokens_ws (collapse_ws u) = tokens_ws u"
proof (induction u rule: collapse_ws.induct)
  case 1
  show ?case by simp
next
  case (2 x xs)
  show ?case
  proof (cases "is_space_char x")
    case True
    have "tokens_ws (collapse_ws (x # xs)) = tokens_ws (collapse_ws (dropWhile is_space_char xs))"
      using True by (simp add: tokens_ws_space space_is_space)
    also have "\<dots> = tokens_ws (dropWhile is_space_char xs)" using 2(1)[OF True] .
    also have "\<dots> = tokens_ws xs" by (rule tokens_ws_dropWhile)
    also have "\<dots> = tokens_ws (x # xs)" using True by (simp add: tokens_ws_space)
    finally show ?thesis .
  next
    case False
    have ih: "tokens_ws (collapse_ws xs) = tokens_ws xs" using 2(2)[OF False] .
    have h: "(collapse_ws xs = [] \<or> is_space_char (hd (collapse_ws xs)))
               \<longleftrightarrow> (xs = [] \<or> is_space_char (hd xs))"
      using collapse_head[of xs] by auto
    have "tokens_ws (collapse_ws (x # xs)) = tokens_ws (x # collapse_ws xs)"
      using False by simp
    also have "\<dots> = tokens_ws (x # xs)"
      unfolding tokens_ws_Cons[OF False] ih h ..
    finally show ?thesis .
  qed
qed

lemma trim_split:
  assumes "blank_spaces c"
  shows "filter (\<lambda>k. k \<noteq> []) (split_char CHR '' '' (trim c))
           = filter (\<lambda>k. k \<noteq> []) (split_char CHR '' '' c)"
proof -
  define d where "d = dropWhile is_space_char c"
  define w where "w = rev (takeWhile is_space_char (rev d))"
  have c: "c = takeWhile is_space_char c @ d" by (simp add: d_def)
  have "rev d = takeWhile is_space_char (rev d) @ dropWhile is_space_char (rev d)" by simp
  then have "d = rev (dropWhile is_space_char (rev d)) @ w"
    unfolding w_def by (metis rev_append rev_rev_ident)
  then have d: "d = trim c @ w" by (simp add: trim_def d_def)
  have "set w \<subseteq> set d" by (subst d) simp
  moreover have "set d \<subseteq> set c" unfolding d_def by (auto dest: set_dropWhileD)
  ultimately have sw: "set w \<subseteq> set c" by blast
  have "\<forall>x \<in> set w. is_space_char x" by (auto simp: w_def dest: set_takeWhileD)
  then have w: "\<forall>x \<in> set w. x = CHR '' ''" using sw assms by (auto simp: blank_spaces_def)
  have l: "\<forall>x \<in> set (takeWhile is_space_char c). x = CHR '' ''"
    using assms by (auto simp: blank_spaces_def dest: set_takeWhileD)
  have "filter (\<lambda>k. k \<noteq> []) (split_char CHR '' '' c)
          = filter (\<lambda>k. k \<noteq> []) (split_char CHR '' '' d)"
    using split_blank_lead[OF l, of d] c by simp
  also have "\<dots> = filter (\<lambda>k. k \<noteq> []) (split_char CHR '' '' (trim c))"
    using split_blank_trail[OF w, of "trim c"] d by simp
  finally show ?thesis by simp
qed

lemma normalized_tokens:
  "filter (\<lambda>k. k \<noteq> []) (split_char CHR '' '' (trim (collapse_ws u))) = tokens_ws u"
  using trim_split[OF collapse_blank, of u] tokens_ws_split[OF collapse_blank, of u]
  by (simp add: tokens_ws_collapse)

lemma normalized_long_tokens:
  "filter (\<lambda>k. 2 < length k) (split_char CHR '' '' (trim (collapse_ws u)))
     = filter (\<lambda>k. 2 < length k) (tokens_ws u)"
proof -
  have "filter (\<lambda>k. 2 < length k) (filter (\<lambda>k. k \<noteq> []) (split_char CHR '' '' (trim (collapse_ws u))))
          = filter (\<lambda>k. 2 < length k) (split_char CHR '' '' (trim (collapse_ws u)))"
    by (simp add: conj_commute cong: conj_cong) (rule filter_cong, auto)
  then show ?thesis by (simp only: normalized_tokens)
qed

lemma lower_unit:
  "code_unit (toLowerChar c) = (if is_upper_unit c then code_unit c + 32 else code_unit c)"
proof -
  have "(of_char c :: nat) < 256" by (rule nat_of_char_less_256)
  then show ?thesis
    by (auto simp: toLowerChar_def is_upper_unit_def code_unit_def Let_def)
qed

lemma word_lower: "is_word_char (toLowerChar c) = is_word_char c"
  unfolding is_word_char_def Let_def lower_unit
  by (auto simp: is_upper_unit_def Let_def)

lemma space_lower: "is_space_char (toLowerChar c) = is_space_char c"
  unfolding is_space_char_def lower_unit
  by (auto simp: is_upper_unit_def Let_def)

lemma lower_blank: "toLowerChar CHR '' '' = CHR '' ''"
  by code_simp

lemma blank_lower:
  "blank_unless is_word_char (toLowerCase q) = toLowerCase (blank_unless is_word_char q)"
  by (simp add: blank_unless_def toLowerCase_def word_lower space_lower lower_blank)

lemma extraction_tokens_counted:
  "get_or_0 (foldl count_word [] (split_char CHR '' '' (normalizedCode code))) t
     = count_list (extraction_tokens code) t"
proof -
  have "kept = (\<lambda>word. \<not> (length word \<le> 2 \<or> isCommonKeyword word))"
    by (auto simp: fun_eq_iff kept_def)
  then show ?thesis by (simp add: count_word_weight get_or_0_Nil extraction_tokens_def)
qed

lemma extraction_query_tokens:
  "extraction_tokens query =
     filter (\<lambda>t. \<not> isCommonKeyword t) (queryKeywords_of (blank_unless is_word_char query))"
proof -
  have "extraction_tokens query =
          filter (\<lambda>t. \<not> isCommonKeyword t)
            (filter (\<lambda>k. 2 < length k) (split_char CHR '' '' (normalizedCode query)))"
    by (simp add: extraction_tokens_def not_le conj_commute)
  also have "filter (\<lambda>k. 2 < length k) (split_char CHR '' '' (normalizedCode query))
               = filter (\<lambda>k. 2 < length k)
                   (tokens_ws (blank_unless is_word_char (toLowerCase query)))"
    by (simp only: normalizedCode_ref ref_normalize_def normalized_long_tokens)
  also have "\<dots> = queryKeywords_of (blank_unless is_word_char query)"
    by (simp only: queryKeywords_tokens blank_lower)
  finally show ?thesis .
qed

lemma lower_ascii:
  "(n::nat) < 128 \<Longrightarrow>
     toLowerChar (char_of n) = char_of (if 65 \<le> n \<and> n \<le> 90 then n + 32 else n)"
  by (simp add: toLowerChar_def is_upper_unit_def code_unit_def Let_def)

text \<open>
  Claim C4.  \<open>search\<close> tokenizes the query by lower-casing it (the letters \<open>A\<close> to \<open>Z\<close>
  become \<open>a\<close> to \<open>z\<close>, the other ASCII characters stay), splitting it on whitespace and
  dropping the tokens of length at most 2: the query keywords are the maximal runs of
  non-whitespace characters of the lower-cased query that are longer than 2.  This is not
  the tokenization of keyword extraction, which first replaces every character that is
  neither a word character nor whitespace by a space and afterwards drops the common
  keywords: the words extraction counts in a text are the query keywords of the text with
  those characters blanked, without the common keywords.  For a query all of whose tokens
  have length at most 2, a search in a directory whose index exists and is not empty
  returns the empty list, fails with nothing and leaves the engine as it is.
\<close>

theorem short_query_empty_result:
  "queryKeywords_of query = filter (\<lambda>t. 2 < length t) (tokens_ws (map toLowerChar query))
   \<and> map toLowerChar ''ABCDEFGHIJKLMNOPQRSTUVWXYZ'' = ''abcdefghijklmnopqrstuvwxyz''
   \<and> (\<forall>n::nat. n < 128 \<longrightarrow>
          toLowerChar (char_of n) = char_of (if 65 \<le> n \<and> n \<le> 90 then n + 32 else n))
   \<and> extraction_tokens query =
         filter (\<lambda>t. \<not> isCommonKeyword t) (queryKeywords_of (blank_unless is_word_char query))
   \<and> (\<forall>md. directoryIndices st (getNormalizedDirectory e directory) = Some md \<and> md \<noteq> []
            \<and> (\<forall>t \<in> set (tokens_ws (map toLowerChar query)). length t \<le> 2)
          \<longrightarrow> search e st query directory = Some (Inr [], st))"
proof (intro conjI allI impI)
  show q: "queryKeywords_of query = filter (\<lambda>t. 2 < length t) (tokens_ws (map toLowerChar query))"
    using queryKeywords_tokens[of query] by (simp add: toLowerCase_def)
  show "map toLowerChar ''ABCDEFGHIJKLMNOPQRSTUVWXYZ'' = ''abcdefghijklmnopqrstuvwxyz''"
    by code_simp
  show "extraction_tokens query =
         filter (\<lambda>t. \<not> isCommonKeyword t) (queryKeywords_of (blank_unless is_word_char query))"
    by (rule extraction_query_tokens)
  fix md
  assume a: "directoryIndices st (getNormalizedDirectory e directory) = Some md \<and> md \<noteq> []
            \<and> (\<forall>t \<in> set (tokens_ws (map toLowerChar query)). length t \<le> 2)"
  have none: "queryKeywords_of query = []"
    using a by (auto simp: q filter_empty_conv)
  have md: "getMetadataForDirectory e st directory \<noteq> []"
    using a by (simp add: getMetadataForDirectory_def)
  have "search e st query directory = Some (ranked_results e st query directory, st)"
    using a by (auto simp: search_def Let_def)
  then show "search e st query directory = Some (Inr [], st)"
    using ranked_results_no_tokens[OF md none] by simp
next
  fix n :: nat
  assume "n < 128"
  then show "toLowerChar (char_of n) = char_of (if 65 \<le> n \<and> n \<le> 90 then n + 32 else n)"
    by (rule lower_ascii)
qed

text \<open>
  The theorem at the query \<open>To BE  or\<close> on an index of three files, and the keywords of
  the query \<open>Email  NOTIFIER ab\<close>.
\<close>

theorem short_query_empty_result_witness:
  "queryKeywords_of ''To BE  or'' = []
   \<and> search bare_env tie_engine ''To BE  or'' ''/proj/src'' = Some (Inr [], tie_engine)
   \<and> queryKeywords_of ''Email  NOTIFIER ab'' = [''email'', ''notifier'']
   \<and> toLowerChar CHR ''E'' = CHR ''e''"
proof -
  have k: "directoryIndices tie_engine (getNormalizedDirectory bare_env ''/proj/src'')
             = Some (getMetadataForDirectory bare_env tie_engine ''/proj/src'')"
    by code_simp
  have n: "getMetadataForDirectory bare_env tie_engine ''/proj/src'' \<noteq> []"
    by code_simp
  have t: "tokens_ws (map toLowerChar ''To BE  or'') = [''to'', ''be'', ''or'']"
    by code_simp
  have s: "\<forall>t \<in> set (tokens_ws (map toLowerChar ''To BE  or'')). length t \<le> 2"
    unfolding t by simp
  have u: "tokens_ws (map toLowerChar ''Email  NOTIFIER ab'') = [''email'', ''notifier'', ''ab'']"
    by code_simp
  have c: "CHR ''E'' = char_of (69::nat)" "CHR ''e'' = char_of (101::nat)" by code_simp+
  note inst = short_query_empty_result[of "''To BE  or''" tie_engine bare_env "''/proj/src''"]
  have 1: "queryKeywords_of ''To BE  or'' = []"
    using inst[THEN conjunct1] unfolding t by simp
  have 2: "search bare_env tie_engine ''To BE  or'' ''/proj/src'' = Some (Inr [], tie_engine)"
    using inst[THEN conjunct2, THEN conjunct2, THEN conjunct2, THEN conjunct2] k n s by blast
  have 3: "queryKeywords_of ''Email  NOTIFIER ab'' = [''email'', ''notifier'']"
    using short_query_empty_result[of "''Email  NOTIFIER ab''", THEN conjunct1]
    unfolding u by simp
  have 4: "toLowerChar CHR ''E'' = CHR ''e''"
    using inst[THEN conjunct2, THEN conjunct2, THEN conjunct1, rule_format, of 69]
    unfolding c by simp
  show ?thesis using 1 2 3 4 by blast
qed

text \<open>
  The claim as stated, that the query is tokenized as steps 1 and 2 of keyword extraction
  tokenize a text, fails at the query \<open>class\<close>: extraction leaves no word of it, since
  \<open>class\<close> is a common keyword, yet the search keeps the token and returns the file whose
  text is \<open>subclass\<close>.  It fails at \<open>foo.bar\<close> too, which extraction splits at the dot and
  the search keeps as one token.
\<close>

theorem query_tokens_counterexample:
  "extraction_tokens ''class'' = []
   \<and> queryKeywords_of ''class'' = [''class'']
   \<and> map_option fst (search bare_env subclass_engine ''class'' ''/proj/src'')
       = Some (Inr [\<lparr>r_file = ''/proj/src/s.ts'', r_code = ''subclass'',
                        similarityScore = 1 / 200, rank = 1\<rparr>])
   \<and> extraction_tokens ''foo.bar'' = [''foo'', ''bar'']
   \<and> queryKeywords_of ''foo.bar'' = [''foo.bar'']"
  by code_simp

section \<open>The keyword map of a text\<close>

lemma match_all_cases:
  assumes step: "\<And>s t ts. ms ci r s = t # ts \<Longrightarrow> \<exists>m. s = m @ t \<and> m \<noteq> [] \<and> Q m"
  shows "m \<in> set (match_all ci r s) \<Longrightarrow> Q m"
proof (induction s rule: length_induct)
  case (1 s)
  show ?case
  proof (cases "ms ci r s")
    case Nil
    show ?thesis
    proof (cases s)
      case Nil
      then show ?thesis using 1(2) \<open>ms ci r s = []\<close> by (simp add: match_all.simps)
    next
      case (Cons x xs)
      then have "m \<in> set (match_all ci r xs)"
        using 1(2) \<open>ms ci r s = []\<close> by (subst (asm) match_all.simps) simp
      moreover have "length xs < length s" using Cons by simp
      ultimately show ?thesis using 1(1) by blast
    qed
  next
    case (Cons t ts)
    from step[OF Cons] obtain m0 where m0: "s = m0 @ t" "m0 \<noteq> []" "Q m0" by blast
    then have l: "length t < length s" by (cases m0) auto
    have tk: "take (length s - length t) s = m0" using m0(1) by simp
    have "match_all ci r s = m0 # match_all ci r t"
      using Cons l tk by (subst match_all.simps) simp
    then have "m = m0 \<or> m \<in> set (match_all ci r t)" using 1(2) by simp
    then show ?thesis using m0(3) 1(1) l by blast
  qed
qed

lemma ms_lit_Seq:
  "ms False (Seq (lit l) r) s = (if startsWith s l then ms False r (drop (length l) s) else [])"
proof -
  have "ms False (Seq (lit l) r) s = concat (map (ms False r) (ms False (lit l) s))"
    by (simp only: ms.simps(5))
  also have "\<dots> = (if startsWith s l then ms False r (drop (length l) s) else [])"
    unfolding ms_lit by (cases "startsWith s l") (simp_all del: ms.simps startsWith.simps)
  finally show ?thesis .
qed

lemma first_literal_run:
  assumes "ms False (Seq (lit f) (Seq (Plus_re (Sym ASpace)) (Plus_re (Sym AWord)))) s = t # ts"
  shows "\<exists>w n. s = f @ w @ n @ t \<and> w \<noteq> [] \<and> list_all is_space_char w
            \<and> n \<noteq> [] \<and> list_all is_word_char n"
proof -
  let ?r = "Seq (Plus_re (Sym ASpace)) (Plus_re (Sym AWord))"
  have e: "ms False (Seq (lit f) ?r) s
             = (if startsWith s f then ms False ?r (drop (length f) s) else [])"
    by (rule ms_lit_Seq)
  have sw: "startsWith s f"
    using assms e by (cases "startsWith s f") (simp_all del: ms.simps startsWith.simps)
  then obtain u where s: "s = f @ u" using startsWith_iff by blast
  then have du: "drop (length f) s = u" by simp
  have "ms False ?r u = t # ts"
    using assms e sw du by (simp del: ms.simps startsWith.simps)
  then obtain x xs y ys where ux: "u = x # xs" "is_space_char x"
      and d: "dropWhile is_space_char xs = y # ys" "is_word_char y"
      and st: "star_list is_word_char ys = t # ts"
    by (auto simp add: ms_ws_word simp del: ms.simps split: list.splits if_splits)
  have t: "t = dropWhile is_word_char ys" using hd_star_list[of is_word_char ys] st by simp
  have xs: "xs = takeWhile is_space_char xs @ y # ys"
    using takeWhile_dropWhile_id[of is_space_char xs] d(1) by simp
  have ys: "ys = takeWhile is_word_char ys @ t"
    using takeWhile_dropWhile_id[of is_word_char ys] t by simp
  let ?w = "x # takeWhile is_space_char xs" and ?n = "y # takeWhile is_word_char ys"
  have "s = f @ ?w @ ?n @ t" using s ux(1) xs ys by simp
  moreover have "list_all is_space_char ?w"
    using ux(2) by (auto simp: list_all_iff dest: set_takeWhileD)
  moreover have "list_all is_word_char ?n"
    using d(2) by (auto simp: list_all_iff dest: set_takeWhileD)
  ultimately show ?thesis by blast
qed

lemma first_call:
  assumes "ms False (Seq (Plus_re (Sym AWord)) (Seq (Star (Sym ASpace)) (Sym (AChr CHR ''('')))) s
             = t # ts"
  shows "\<exists>n w. s = n @ w @ ''('' @ t \<and> n \<noteq> [] \<and> list_all is_word_char n
            \<and> list_all is_space_char w"
proof -
  from assms obtain x xs where sx: "s = x # xs" "is_word_char x"
      and d: "dropWhile is_space_char (dropWhile is_word_char xs) = CHR ''('' # t"
    by (auto simp add: ms_word_paren simp del: ms.simps split: list.splits if_splits)
  let ?n = "x # takeWhile is_word_char xs"
  let ?w = "takeWhile is_space_char (dropWhile is_word_char xs)"
  have "dropWhile is_word_char xs = ?w @ CHR ''('' # t"
    using takeWhile_dropWhile_id[of is_space_char "dropWhile is_word_char xs"] d by simp
  then have "xs = takeWhile is_word_char xs @ ?w @ CHR ''('' # t"
    using takeWhile_dropWhile_id[of is_word_char xs] by simp
  then have "s = ?n @ ?w @ ''('' @ t" using sx(1) by simp
  moreover have "list_all is_word_char ?n"
    using sx(2) by (auto simp: list_all_iff dest: set_takeWhileD)
  moreover have "list_all is_space_char ?w"
    by (auto simp: list_all_iff dest: set_takeWhileD)
  ultimately show ?thesis by blast
qed

lemma function_match_shape:
  assumes "m \<in> set (match_all False function_re text)"
  shows "(\<exists>w n. m = ''function'' @ w @ n \<and> w \<noteq> [] \<and> list_all is_space_char w
             \<and> n \<noteq> [] \<and> list_all is_word_char n)
         \<or> (\<exists>n w. m = n @ w @ ''('' \<and> n \<noteq> [] \<and> list_all is_word_char n
             \<and> list_all is_space_char w)"
    (is "?Q m")
proof (rule match_all_cases[where Q = ?Q, OF _ assms])
  fix s t ts
  assume a: "ms False function_re s = t # ts"
  let ?a = "Seq (lit ''function'') (Seq (Plus_re (Sym ASpace)) (Plus_re (Sym AWord)))"
  let ?b = "Seq (Plus_re (Sym AWord)) (Seq (Star (Sym ASpace)) (Sym (AChr CHR ''('')))"
  have e: "ms False function_re s = ms False ?a s @ ms False ?b s"
    by (simp only: function_re_def ms.simps(6))
  show "\<exists>m. s = m @ t \<and> m \<noteq> [] \<and> ?Q m"
  proof (cases "ms False ?a s")
    case Nil
    then have "ms False ?b s = t # ts" using a e by (simp del: ms.simps)
    from first_call[OF this] obtain n w where
      "s = n @ w @ ''('' @ t" "n \<noteq> []" "list_all is_word_char n" "list_all is_space_char w"
      by blast
    then have "s = (n @ w @ ''('') @ t \<and> n @ w @ ''('' \<noteq> [] \<and> ?Q (n @ w @ ''('')"
      by auto
    then show ?thesis by blast
  next
    case (Cons t' ts')
    then have "t' = t" using a e by (simp del: ms.simps)
    from first_literal_run[OF Cons[unfolded this]] obtain w n where
      "s = ''function'' @ w @ n @ t" "w \<noteq> []" "list_all is_space_char w" "n \<noteq> []"
      "list_all is_word_char n"
      by blast
    then have "s = (''function'' @ w @ n) @ t \<and> ''function'' @ w @ n \<noteq> []
                 \<and> ?Q (''function'' @ w @ n)"
      by auto
    then show ?thesis by blast
  qed
qed

lemma ms_strip:
  "ms False function_strip_re u =
     (if startsWith u ''function''
      then ms False (Plus_re (Sym ASpace)) (drop (length ''function'') u) else [])
     @ (case dropWhile is_space_char u of [] \<Rightarrow> [] | c # t \<Rightarrow> if c = CHR ''('' then [t] else [])"
  by (simp only: function_strip_re_def ms.simps(6) ms_lit_Seq ms_ws_paren)

lemma startsWith_words:
  "startsWith (n @ c) f \<Longrightarrow> list_all is_word_char f \<Longrightarrow> c = [] \<or> \<not> is_word_char (hd c) \<Longrightarrow>
     startsWith n f"
proof (induction n arbitrary: f)
  case Nil
  then show ?case by (cases f; cases c) auto
next
  case (Cons x n)
  then show ?case by (cases f) auto
qed

lemma endsWith_Cons: "endsWith n f \<Longrightarrow> endsWith (x # n) f"
  by (auto simp: endsWith_def startsWith_iff)

lemma endsWith_self: "endsWith f f"
  by (simp add: endsWith_def startsWith_iff)

lemma function_word: "list_all is_word_char ''function''"
  by code_simp

lemma strip_none:
  assumes x: "is_word_char x" and w: "list_all is_word_char n"
    and c: "c = [] \<or> \<not> is_word_char (hd c)"
    and nt: "\<not> (endsWith (x # n) ''function'' \<and> c \<noteq> [] \<and> is_space_char (hd c))"
  shows "ms False function_strip_re (x # n @ c) = []"
proof -
  define f where "f = ''function''"
  have fw: "list_all is_word_char f" unfolding f_def by (rule function_word)
  have one: "startsWith (x # n @ c) f \<Longrightarrow>
               ms False (Plus_re (Sym ASpace)) (drop (length f) (x # n @ c)) = []"
  proof -
    assume "startsWith (x # n @ c) f"
    then have "startsWith ((x # n) @ c) f" by simp
    then have "startsWith (x # n) f" using fw c by (rule startsWith_words)
    then obtain r where r: "x # n = f @ r" using startsWith_iff by blast
    then have d: "drop (length f) (x # n @ c) = r @ c"
      by (metis append_Cons append_assoc append_eq_conv_conj)
    show ?thesis
    proof (cases r)
      case Nil
      then have "endsWith (x # n) ''function''" using r endsWith_self by (simp add: f_def)
      then have "c = [] \<or> \<not> is_space_char (hd c)" using nt by blast
      then show ?thesis unfolding d Nil by (cases c) (auto simp: ms_Plus_space simp del: ms.simps)
    next
      case (Cons y ys)
      then have "y \<in> set (x # n)" using r by (metis append_Cons in_set_conv_decomp)
      then have "is_word_char y" using x w by (auto simp: list_all_iff)
      then have "\<not> is_space_char y" using space_not_word by blast
      then show ?thesis unfolding d Cons by (simp add: ms_Plus_space del: ms.simps)
    qed
  qed
  have nx: "\<not> is_space_char x" using x space_not_word by blast
  have two: "(case dropWhile is_space_char (x # n @ c) of [] \<Rightarrow> []
              | c # t \<Rightarrow> if c = CHR ''('' then [t] else []) = []"
    using nx paren_not_word[OF x] by simp
  show ?thesis
    unfolding ms_strip f_def[symmetric] two using one
    by (cases "startsWith (x # n @ c) f") (simp_all del: ms.simps startsWith.simps)
qed

lemma strip_words:
  assumes "list_all is_word_char n" and "c = [] \<or> \<not> is_word_char (hd c)"
    and "\<not> (endsWith n ''function'' \<and> c \<noteq> [] \<and> is_space_char (hd c))"
  shows "replace_all False function_strip_re [] (n @ c)
           = n @ replace_all False function_strip_re [] c"
  using assms
proof (induction n)
  case Nil
  show ?case by simp
next
  case (Cons x n)
  have m: "ms False function_strip_re (x # n @ c) = []"
    by (rule strip_none) (use Cons.prems in auto)
  have nt: "\<not> (endsWith n ''function'' \<and> c \<noteq> [] \<and> is_space_char (hd c))"
    using Cons.prems(3) endsWith_Cons by blast
  have ih: "replace_all False function_strip_re [] (n @ c)
              = n @ replace_all False function_strip_re [] c"
    using Cons.IH Cons.prems(1,2) nt by simp
  have "replace_all False function_strip_re [] (x # n @ c)
          = x # replace_all False function_strip_re [] (n @ c)"
    by (subst replace_all.simps) (simp only: m list.case)
  then show ?case using ih by simp
qed

lemma strip_Nil: "replace_all False function_strip_re [] [] = []"
  by code_simp

lemma strip_step:
  assumes "ms False function_strip_re s = t # ts" "length t < length s"
  shows "replace_all False function_strip_re [] s = replace_all False function_strip_re [] t"
  by (subst replace_all.simps) (simp only: assms list.case if_True append_Nil)

lemma dropWhile_spaces: "list_all is_space_char w \<Longrightarrow> dropWhile is_space_char (w @ s) = dropWhile is_space_char s"
  by (induction w) auto

lemma strip_paren:
  assumes "list_all is_space_char w"
  shows "replace_all False function_strip_re [] (w @ ''('') = []"
proof -
  have "\<not> startsWith (w @ ''('') ''function''"
  proof (cases w)
    case Nil
    then show ?thesis by simp
  next
    case (Cons y ys)
    have "is_space_char CHR ''f'' = False" by code_simp
    then have "y \<noteq> CHR ''f''" using assms Cons by auto
    then show ?thesis using Cons by simp
  qed
  moreover have "dropWhile is_space_char (w @ ''('') = ''(''"
    using dropWhile_spaces[OF assms, of "''(''"] paren_not_space[of "CHR ''(''"] by auto
  ultimately have "ms False function_strip_re (w @ ''('') = [[]]"
    unfolding ms_strip by (simp del: ms.simps startsWith.simps)
  then show ?thesis using strip_step[of "w @ ''(''" "[]" "[]"] strip_Nil by simp
qed

lemma strip_literal:
  assumes w: "w \<noteq> []" "list_all is_space_char w" and s: "s = [] \<or> \<not> is_space_char (hd s)"
  shows "replace_all False function_strip_re [] (''function'' @ w @ s)
           = replace_all False function_strip_re [] s"
proof -
  define f where "f = ''function''"
  obtain x w' where x: "w = x # w'" using w(1) by (cases w) auto
  have sp: "is_space_char x" "list_all is_space_char w'" using w(2) x by simp_all
  have d: "dropWhile is_space_char (w' @ s) = s"
    using dropWhile_spaces[OF sp(2), of s] s by (cases s) auto
  have sw: "startsWith (f @ w @ s) f" by (simp add: startsWith_iff)
  have "ms False (Plus_re (Sym ASpace)) (w @ s) = star_list is_space_char (w' @ s)"
    using x sp(1) by (simp add: ms_Plus_space del: ms.simps)
  moreover have "star_list is_space_char (w' @ s)
                   = hd (star_list is_space_char (w' @ s)) # tl (star_list is_space_char (w' @ s))"
    using star_list_nonempty[of is_space_char "w' @ s"] by simp
  ultimately obtain ts where p: "ms False (Plus_re (Sym ASpace)) (w @ s) = s # ts"
    using hd_star_list[of is_space_char "w' @ s"] d by metis
  have "ms False function_strip_re (f @ w @ s)
          = (s # ts) @ (case dropWhile is_space_char (f @ w @ s) of [] \<Rightarrow> []
                        | c # t \<Rightarrow> if c = CHR ''('' then [t] else [])"
    unfolding ms_strip f_def[symmetric] using sw p
    by (simp del: ms.simps startsWith.simps)
  then obtain ts' where "ms False function_strip_re (f @ w @ s) = s # ts'" by simp
  moreover have "length s < length (f @ w @ s)" using w(1) by simp
  ultimately show ?thesis unfolding f_def[symmetric] by (rule strip_step)
qed

lemma kept_Nil: "kept [] = False"
  by (simp add: kept_def)

lemma kept_function: "kept (toLowerCase ''function'') = False"
  by code_simp

lemma takeWhile_run:
  "list_all P n \<Longrightarrow> c = [] \<or> \<not> P (hd c) \<Longrightarrow> takeWhile P (n @ c) = n"
  by (induction n) (auto simp: takeWhile_eq_Nil_iff)

lemma function_name_strip:
  assumes m: "m \<in> set (match_all False function_re text)" and p: "plain_function m"
  shows "(kept (toLowerCase (replace_all False function_strip_re [] m))
            \<longleftrightarrow> kept (toLowerCase (function_name m)))
         \<and> (kept (toLowerCase (function_name m)) \<longrightarrow>
              toLowerCase (replace_all False function_strip_re [] m)
                = toLowerCase (function_name m))"
proof -
  from function_match_shape[OF m] consider
    (decl) w n where "m = ''function'' @ w @ n" "w \<noteq> []" "list_all is_space_char w"
      "n \<noteq> []" "list_all is_word_char n"
    | (call) n w where "m = n @ w @ ''(''" "n \<noteq> []" "list_all is_word_char n"
      "list_all is_space_char w"
    by blast
  then show ?thesis
  proof cases
    case decl
    have hn: "is_word_char (hd n)" using decl(4,5) by (cases n) auto
    then have "n = [] \<or> \<not> is_space_char (hd n)" using space_not_word by blast
    then have "replace_all False function_strip_re [] m = replace_all False function_strip_re [] n"
      unfolding decl(1) using decl(2,3) by (intro strip_literal)
    also have "\<dots> = n"
      using strip_words[of n "[]"] decl(5) strip_Nil by simp
    finally have code: "replace_all False function_strip_re [] m = n" .
    have ln: "last m = last n" using decl(1,4) by simp
    have "is_word_char (last n)" using decl(4,5) by (auto simp: list_all_iff)
    then have "last m \<noteq> CHR ''(''" using ln paren_not_word by metis
    then have "function_name m = rev (takeWhile is_word_char (rev m))"
      by (simp add: function_name_def)
    moreover have "rev m = rev n @ (rev w @ rev ''function'')" using decl(1) by simp
    moreover have "takeWhile is_word_char (rev n @ (rev w @ rev ''function'')) = rev n"
    proof (rule takeWhile_run)
      show "list_all is_word_char (rev n)" using decl(5) by (simp add: list_all_iff)
      have "rev w \<noteq> []" using decl(2) by simp
      moreover have "is_space_char (hd (rev w))"
        using decl(2,3) by (simp add: hd_rev list_all_iff)
      ultimately have "\<not> is_word_char (hd (rev w @ rev ''function''))"
        using space_not_word by (cases "rev w") auto
      then show "rev w @ rev ''function'' = [] \<or> \<not> is_word_char (hd (rev w @ rev ''function''))"
        by blast
    qed
    ultimately have "function_name m = n" by simp
    then show ?thesis using code by simp
  next
    case call
    let ?c = "w @ ''(''"
    have hc: "\<not> is_word_char (hd ?c)"
    proof (cases w)
      case Nil
      then show ?thesis using paren_not_word by auto
    next
      case (Cons y ys)
      then show ?thesis using call(4) space_not_word by auto
    qed
    have sc: "is_space_char (hd ?c) \<longleftrightarrow> w \<noteq> []"
    proof (cases w)
      case Nil
      then show ?thesis using paren_not_space by auto
    next
      case (Cons y ys)
      then show ?thesis using call(4) by auto
    qed
    have "takeWhile is_word_char (n @ ?c) = n"
      by (rule takeWhile_run) (use call(3) hc in auto)
    then have name: "function_name m = n" using call(1) by (simp add: function_name_def)
    have bl: "butlast m = n @ w" using call(1) by (simp add: butlast_append)
    have lb: "is_space_char (last (butlast m)) \<longleftrightarrow> w \<noteq> []"
    proof (cases "w = []")
      case True
      have "is_word_char (last n)" using call(2,3) by (auto simp: list_all_iff)
      then show ?thesis using True bl call(2) space_not_word by auto
    next
      case False
      then have "is_space_char (last w)" using call(4) by (auto simp: list_all_iff)
      then show ?thesis using False bl by simp
    qed
    have pl: "\<not> (w \<noteq> [] \<and> endsWith n ''function'' \<and> n \<noteq> ''function'')"
      using p name lb bl call(1,2) by (auto simp: plain_function_def)
    show ?thesis
    proof (cases "w \<noteq> [] \<and> endsWith n ''function''")
      case False
      have "replace_all False function_strip_re [] (n @ ?c)
              = n @ replace_all False function_strip_re [] ?c"
        by (rule strip_words) (use call(3) hc sc False in auto)
      then have "replace_all False function_strip_re [] m = n"
        using call(1) strip_paren[OF call(4)] by simp
      then show ?thesis using name by simp
    next
      case True
      then have n: "n = ''function''" using pl by blast
      have "?c = [] \<or> \<not> is_space_char (hd (''(''::string))"
        using paren_not_space by auto
      have "replace_all False function_strip_re [] (''function'' @ w @ ''('')
              = replace_all False function_strip_re [] ''(''"
        by (rule strip_literal) (use True call(4) paren_not_space in auto)
      also have "\<dots> = []" using strip_paren[of "[]"] by simp
      finally have "replace_all False function_strip_re [] m = []" using call(1) n by simp
      then show ?thesis using name n kept_Nil kept_function by (simp add: toLowerCase_def)
    qed
  qed
qed

lemma filter_kept_names:
  assumes "\<forall>m \<in> set hs. (kept (g m) \<longleftrightarrow> kept (h m)) \<and> (kept (h m) \<longrightarrow> g m = h m)"
  shows "filter kept (map g hs) = filter kept (map h hs)"
  using assms by (induction hs) auto

lemma extractKeywords_ref_weight:
  assumes c: "\<forall>m \<in> set (match_all False class_re text). plain_class m"
    and f: "\<forall>m \<in> set (match_all False function_re text). plain_function m"
  shows "get_or_0 (extractKeywords text) t = ref_weight is_word_char text t"
proof -
  have cl: "map (\<lambda>m. toLowerCase (replace_first ''class '' [] m)) (match_all False class_re text)
              = ref_class_names text"
    unfolding ref_class_names_def using c replace_first_plain by (intro map_cong) auto
  have fn: "filter kept (map (\<lambda>m. toLowerCase (replace_all False function_strip_re [] m))
                          (match_all False function_re text))
              = ref_function_names text"
    unfolding ref_function_names_def
    by (rule filter_kept_names) (use f function_name_strip in blast)
  show ?thesis
    unfolding extractKeywords_weight ref_weight_def cl fn ..
qed

lemma extraction_slips:
  "extractKeywords ''class  Foo'' = [(''foo'', 1), ('' foo'', 10)]
   \<and> match_all False class_re ''class  Foo'' = [''class  Foo'']
   \<and> extractKeywords ''userfunction (y)'' = [(''userfunction'', 1), (''user'', 5)]
   \<and> match_all False function_re ''userfunction (y)'' = [''userfunction ('']"
  by code_simp

text \<open>
  Claim C3.  Step 1 of the extraction keeps the word characters, that is the ASCII
  letters, the digits and the underscore, together with the whitespace, and blanks every
  other character.  With this reading the keyword map of a text is the four-step
  definition: a term is a key exactly when its weight is positive, and its weight is the
  number of its occurrences among the words kept by step 2, plus 10 for each class
  declaration of that name, plus 5 for each function-like match of that name when the name
  passes the filter of step 2.  This holds for every text in which each match of \<open>class
  <Name>\<close> has exactly one space before the name, and in which no match of \<open><name>(\<close> has
  whitespace before the parenthesis after a name that ends in, without being, \<open>function\<close>.
  The keys of the map are distinct.
\<close>

theorem extractKeywords_reference:
  assumes "\<forall>m \<in> set (match_all False class_re text). plain_class m"
    and "\<forall>m \<in> set (match_all False function_re text). plain_function m"
  shows "map_of (extractKeywords text) = extract_ref is_word_char text
         \<and> distinct (map fst (extractKeywords text))"
proof
  show "map_of (extractKeywords text) = extract_ref is_word_char text"
  proof
    fix t
    have "map_of (extractKeywords text) t
            = (if get_or_0 (extractKeywords text) t = 0 then None
               else Some (get_or_0 (extractKeywords text) t))"
      by (rule positive_map_of) (rule extractKeywords_positive)
    then show "map_of (extractKeywords text) t = extract_ref is_word_char text t"
      unfolding extractKeywords_ref_weight[OF assms] extract_ref_def .
  qed
  show "distinct (map fst (extractKeywords text))" by (rule extractKeywords_distinct)
qed

text \<open>
  The theorem at a text with a class, a function declaration and two calls.
\<close>

theorem extractKeywords_reference_witness:
  "map_of (extractKeywords sample_text) = extract_ref is_word_char sample_text
   \<and> extractKeywords sample_text = [(''userservice'', 11), (''add'', 12), (''foo_bar'', 6)]
   \<and> map (extract_ref is_word_char sample_text) [''userservice'', ''add'', ''foo_bar'', ''foo'']
       = [Some 11, Some 12, Some 6, None]"
proof -
  have c: "match_all False class_re sample_text = [''class UserService'']" by code_simp
  have f: "match_all False function_re sample_text = [''function add'', ''foo_bar('', ''add ('']"
    by code_simp
  have pc: "plain_class ''class UserService''" by code_simp
  have pf: "plain_function ''function add''" "plain_function ''foo_bar(''"
    "plain_function ''add (''"
    by code_simp+
  have h1: "\<forall>m \<in> set (match_all False class_re sample_text). plain_class m"
    unfolding c using pc by simp
  have h2: "\<forall>m \<in> set (match_all False function_re sample_text). plain_function m"
    unfolding f using pf by simp
  have e: "extractKeywords sample_text = [(''userservice'', 11), (''add'', 12), (''foo_bar'', 6)]"
    by code_simp
  have m: "map_of (extractKeywords sample_text) = extract_ref is_word_char sample_text"
    using extractKeywords_reference[OF h1 h2] by simp
  have "map (extract_ref is_word_char sample_text) [''userservice'', ''add'', ''foo_bar'', ''foo'']
          = [Some 11, Some 12, Some 6, None]"
    unfolding m[symmetric] e by simp
  then show ?thesis using m e by simp
qed

text \<open>
  The claim as stated blanks every character that is not a letter, a digit or whitespace,
  the underscore among them.  The code keeps the underscore: the text \<open>foo_bar\<close>, which
  holds neither a class nor a function-like match, is indexed under \<open>foo_bar\<close> and not under
  \<open>foo\<close> and \<open>bar\<close>.
\<close>

theorem underscore_counterexample:
  "extractKeywords ''foo_bar'' = [(''foo_bar'', 1)]
   \<and> match_all False class_re ''foo_bar'' = []
   \<and> match_all False function_re ''foo_bar'' = []
   \<and> map (extract_ref is_letter_or_digit ''foo_bar'') [''foo_bar'', ''foo'', ''bar'']
       = [None, Some 1, Some 1]
   \<and> map (map_of (extractKeywords ''foo_bar'')) [''foo_bar'', ''foo'', ''bar'']
       = [Some 1, None, None]"
  by code_simp

end
